theory Spec2Isabelle
  imports Complex_Main "HOL-Library.Log_Nat"
begin

section \<open>JavaScript numbers\<close>

text \<open>
  A JavaScript number is an IEEE 754 binary64 value. The pipeline computes
  \<open>Math.round(((i + 1) / fileKeys.length) * 25)\<close> on array indices and lengths, so
  the operands are positive and far from the subnormal and overflow ranges. On that
  range the result of a division or a product is the exact rational result rounded
  to the nearest number with a 53-bit significand, ties to the even significand:
  \<open>binade x\<close> is the exponent \<open>e\<close> with \<open>2 ^ e \<le> x < 2 ^ (e + 1)\<close>, and
  \<open>toDouble x\<close> rounds \<open>x\<close> on the grid of spacing \<open>2 ^ (e - 52)\<close>.
  \<open>Math.round\<close> returns the nearest integer, a tie going upwards. No operand of
  the pipeline is negative; \<open>toDouble\<close> is 0 on zero and is not used below it.
\<close>

definition roundTiesToEven :: "rat \<Rightarrow> int" where
  "roundTiesToEven x =
     (let f = \<lfloor>x\<rfloor>; r = x - of_int f
      in if r < 1 / 2 then f else if 1 / 2 < r then f + 1 else if even f then f else f + 1)"

definition binade :: "rat \<Rightarrow> int" where
  "binade x =
     (let (p, q) = quotient_of x; b = bitlen p - bitlen q
      in if 2 powi b \<le> x then b else b - 1)"

definition toDouble :: "rat \<Rightarrow> rat" where
  "toDouble x =
     (if x \<le> 0 then 0
      else let u = 2 powi (binade x - 52) in of_int (roundTiesToEven (x / u)) * u)"

definition MathRound :: "rat \<Rightarrow> int" where
  "MathRound x = \<lfloor>x + 1 / 2\<rfloor>"

text \<open>The progress written after the file of index \<open>i\<close> out of \<open>n\<close> is collected.\<close>

definition collectProgress :: "nat \<Rightarrow> nat \<Rightarrow> int" where
  "collectProgress i n = MathRound (toDouble (toDouble (of_nat (i + 1) / of_nat n) * 25))"

section \<open>Data model\<close>

text \<open>
  The \<open>status\<close> union of \<open>JobStatus\<close> and of the \<open>download_jobs\<close> table
  (\<open>"queued" | "processing" | "completed" | "failed"\<close>).
\<close>

datatype statusValue = Queued | Processing | Completed | Failed

text \<open>A Node \<open>Buffer\<close> is a sequence of bytes; \<open>char\<close> is an 8-bit value.\<close>

type_synonym buffer = "char list"

text \<open>Interface \<open>JobStatus\<close>: one entry of the in-memory cache \<open>jobs\<close>. Dates are kept
  as integer instants.\<close>

record JobStatus =
  jobId :: string
  status :: statusValue
  fileKeys :: "string list"
  progress :: int
  filesCompleted :: int
  totalFiles :: int
  downloadUrl :: "string option"
  error :: "string option"
  createdAt :: int
  updatedAt :: int

text \<open>Interface \<open>JobRecord\<close>: one row of the SQLite table \<open>download_jobs\<close>. The column
  \<open>file_keys\<close> holds the JSON text of the key list; \<open>JSON.stringify\<close> followed by
  \<open>JSON.parse\<close> gives the list back, so the row keeps the list.\<close>

record JobRecord =
  job_id :: string
  row_status :: statusValue
  file_keys :: "string list"
  row_progress :: int
  files_completed :: int
  total_files :: int
  download_url :: "string option"
  row_error :: "string option"
  created_at :: int
  updated_at :: int

text \<open>The \<open>updates\<close> argument of \<open>dbOperations.updateJob\<close>: every field but
  \<open>updatedAt\<close> is optional.\<close>

record jobUpdates =
  upd_status :: "statusValue option"
  upd_progress :: "int option"
  upd_filesCompleted :: "int option"
  upd_downloadUrl :: "string option"
  upd_error :: "string option"
  upd_updatedAt :: int

text \<open>What a \<open>catch\<close> clause receives: an \<open>Error\<close> with its message, or any other
  value. \<open>errorMessage\<close> is the expression
  \<open>error instanceof Error ? error.message : "Unknown error"\<close>.\<close>

datatype thrown = Error string | NonError

fun errorMessage :: "thrown \<Rightarrow> string" where
  "errorMessage (Error m) = m"
| "errorMessage NonError = ''Unknown error''"

text \<open>An element of \<open>tempFiles\<close> in \<open>processDownloadJob\<close>.\<close>

record tempFile =
  key :: string
  data :: buffer
  checksum :: string

text \<open>An object of the destination bucket, as \<open>PutObjectCommand\<close> writes it.\<close>

record s3Object =
  Body :: buffer
  ContentType :: string
  metaJobId :: string
  metaFileCount :: nat
  metaCreatedAt :: int

text \<open>The outcome of \<open>GetObjectCommand\<close> on the bucket \<open>source\<close> followed by
  \<open>streamToBuffer\<close>: the send or the stream throws, the response has no body, or
  the bytes arrive.\<close>

datatype getObjectResult = SendThrows thrown | NoBody | BodyBytes buffer

text \<open>
  The external collaborators, as parameters of the model: the object store
  (\<open>HeadObject\<close> and \<open>GetObject\<close> on the bucket \<open>source\<close>, \<open>PutObject\<close> and the
  presigner on the destination bucket), the hash behind \<open>calculateChecksum\<close>, the
  archiver, the failures of the SQLite driver (the \<open>k\<close>-th call of a
  \<open>dbOperations\<close> function throws \<open>dbThrows k\<close>) and the clock (the \<open>k\<close>-th
  \<open>new Date()\<close> is \<open>now k\<close>).
\<close>

record env =
  headObject :: "string \<Rightarrow> bool"
  getObject :: "string \<Rightarrow> getObjectResult"
  sha256hex :: "buffer \<Rightarrow> string"
  archiver :: "(string \<times> buffer) list \<Rightarrow> thrown + buffer"
  putObject :: "string \<Rightarrow> thrown option"
  getSignedUrl :: "string \<Rightarrow> thrown + string"
  dbThrows :: "nat \<Rightarrow> thrown option"
  now :: "nat \<Rightarrow> int"

text \<open>
  The state of the process and of its stores: the cache \<open>jobs\<close>, the table
  \<open>download_jobs\<close>, the destination bucket, the two call counters that index the
  oracles of \<open>env\<close>, and \<open>observed\<close>, the record of every value a job object has
  taken in the cache. The blocks of assignments to a job object contain no
  \<open>await\<close>, so another handler sees the object only between two blocks;
  \<open>observed\<close> has one entry per block.
\<close>

record world =
  jobs :: "string \<rightharpoonup> JobStatus"
  db :: "string \<rightharpoonup> JobRecord"
  downloads :: "string \<rightharpoonup> s3Object"
  dbCalls :: nat
  dateCalls :: nat
  observed :: "JobStatus list"

section \<open>Durable store: \<open>dbOperations\<close>\<close>

text \<open>The operators \<open>a ?? b\<close> and \<open>a || null\<close> (also \<open>a || undefined\<close>) on optional
  strings: the second one also drops the empty string.\<close>

definition nullish :: "'a option \<Rightarrow> 'a \<Rightarrow> 'a" where
  "nullish a b = (case a of Some v \<Rightarrow> v | None \<Rightarrow> b)"

definition nullishOpt :: "'a option \<Rightarrow> 'a option \<Rightarrow> 'a option" where
  "nullishOpt a b = (case a of Some v \<Rightarrow> Some v | None \<Rightarrow> b)"

definition orNull :: "string option \<Rightarrow> string option" where
  "orNull a = (case a of None \<Rightarrow> None | Some s \<Rightarrow> if s = [] then None else Some s)"

definition recordToJobStatus :: "JobRecord \<Rightarrow> JobStatus" where
  "recordToJobStatus r =
     \<lparr> jobId = job_id r, status = row_status r, fileKeys = file_keys r,
       progress = row_progress r, filesCompleted = files_completed r,
       totalFiles = total_files r, downloadUrl = orNull (download_url r),
       error = orNull (row_error r), createdAt = created_at r, updatedAt = updated_at r \<rparr>"

text \<open>\<open>dbOperations.insertJob\<close>: the prepared \<open>INSERT\<close>; \<open>job_id\<close> is the primary key,
  so a second row with the same id is refused.\<close>

definition insertJob :: "env \<Rightarrow> JobStatus \<Rightarrow> world \<Rightarrow> thrown option \<times> world" where
  "insertJob e job w =
     (let w1 = w\<lparr>dbCalls := dbCalls w + 1\<rparr>
      in case dbThrows e (dbCalls w) of
           Some t \<Rightarrow> (Some t, w1)
         | None \<Rightarrow>
             (case db w (jobId job) of
                Some r \<Rightarrow> (Some (Error ''UNIQUE constraint failed: download_jobs.job_id''), w1)
              | None \<Rightarrow>
                  (None, w1\<lparr>db := (db w)(jobId job \<mapsto>
                     \<lparr> job_id = jobId job, row_status = status job, file_keys = fileKeys job,
                       row_progress = progress job, files_completed = filesCompleted job,
                       total_files = totalFiles job, download_url = orNull (downloadUrl job),
                       row_error = orNull (error job), created_at = createdAt job,
                       updated_at = updatedAt job \<rparr>)\<rparr>)))"

text \<open>\<open>dbOperations.updateJob\<close>: reads the current row, returns at once when there is
  none, and otherwise writes the merge of the updates over the row.\<close>

definition updateJob :: "env \<Rightarrow> string \<Rightarrow> jobUpdates \<Rightarrow> world \<Rightarrow> thrown option \<times> world" where
  "updateJob e jid u w =
     (let w1 = w\<lparr>dbCalls := dbCalls w + 1\<rparr>
      in case dbThrows e (dbCalls w) of
           Some t \<Rightarrow> (Some t, w1)
         | None \<Rightarrow>
             (case db w jid of
                None \<Rightarrow> (None, w1)
              | Some current \<Rightarrow>
                  (None, w1\<lparr>db := (db w)(jid \<mapsto>
                     current\<lparr> row_status := nullish (upd_status u) (row_status current),
                              row_progress := nullish (upd_progress u) (row_progress current),
                              files_completed := nullish (upd_filesCompleted u) (files_completed current),
                              download_url := nullishOpt (upd_downloadUrl u) (download_url current),
                              row_error := nullishOpt (upd_error u) (row_error current),
                              updated_at := upd_updatedAt u \<rparr>)\<rparr>)))"

text \<open>\<open>dbOperations.getJob\<close>.\<close>

definition getJob :: "env \<Rightarrow> string \<Rightarrow> world \<Rightarrow> (thrown + JobStatus option) \<times> world" where
  "getJob e jid w =
     (let w1 = w\<lparr>dbCalls := dbCalls w + 1\<rparr>
      in case dbThrows e (dbCalls w) of
           Some t \<Rightarrow> (Inl t, w1)
         | None \<Rightarrow> (Inr (map_option recordToJobStatus (db w jid)), w1))"

text \<open>The call \<open>try { dbOperations.updateJob(...) } catch (dbError) { console.error(...) }\<close>:
  whatever the driver throws is logged and dropped.\<close>

definition updateJobCaught :: "env \<Rightarrow> string \<Rightarrow> jobUpdates \<Rightarrow> world \<Rightarrow> world" where
  "updateJobCaught e jid u w = snd (updateJob e jid u w)"

definition noUpdates :: "int \<Rightarrow> jobUpdates" where
  "noUpdates t =
     \<lparr> upd_status = None, upd_progress = None, upd_filesCompleted = None,
       upd_downloadUrl = None, upd_error = None, upd_updatedAt = t \<rparr>"

section \<open>Pipeline executor: \<open>processDownloadJob\<close>\<close>

text \<open>
  A block of assignments to the job object that ends with
  \<open>job.updatedAt = new Date()\<close>. The object is the one the cache holds under the
  job id, so the block changes the cache entry; the new instant is returned for the
  durable write that follows.
\<close>

definition mutateJob :: "env \<Rightarrow> string \<Rightarrow> (JobStatus \<Rightarrow> JobStatus) \<Rightarrow> world \<Rightarrow> int \<times> world" where
  "mutateJob e jid f w =
     (let t = now e (dateCalls w); w1 = w\<lparr>dateCalls := dateCalls w + 1\<rparr>
      in case jobs w jid of
           None \<Rightarrow> (t, w1)
         | Some job \<Rightarrow>
             (let job' = (f job)\<lparr>updatedAt := t\<rparr>
              in (t, w1\<lparr>jobs := (jobs w)(jid \<mapsto> job'), observed := observed w @ [job']\<rparr>)))"

text \<open>\<open>calculateChecksum\<close>: the SHA-256 digest in hexadecimal, from the hash the
  environment supplies.\<close>

definition calculateChecksum :: "env \<Rightarrow> buffer \<Rightarrow> string" where
  "calculateChecksum e fileData = sha256hex e fileData"

text \<open>The error the inner \<open>catch\<close> of the collection loop rethrows.\<close>

definition collectError :: "string \<Rightarrow> thrown \<Rightarrow> thrown" where
  "collectError k t = Error (''Failed to collect file '' @ k @ '': '' @ errorMessage t)"

text \<open>
  Phase 1, the loop \<open>for (let i = 0; i < fileKeys.length; i++)\<close>: \<open>n\<close> is
  \<open>fileKeys.length\<close>, \<open>i\<close> the index and the list argument the keys from index
  \<open>i\<close> on. The result is the error thrown out of the loop, or \<open>tempFiles\<close>.
\<close>

fun collectFiles ::
  "env \<Rightarrow> string \<Rightarrow> nat \<Rightarrow> nat \<Rightarrow> string list \<Rightarrow> tempFile list \<Rightarrow> world
     \<Rightarrow> (thrown + tempFile list) \<times> world" where
  "collectFiles e jid n i [] tempFiles w = (Inr tempFiles, w)"
| "collectFiles e jid n i (k # rest) tempFiles w =
     (case getObject e k of
        SendThrows t \<Rightarrow> (Inl (collectError k t), w)
      | NoBody \<Rightarrow> (Inl (collectError k (Error (''File '' @ k @ '' has no body''))), w)
      | BodyBytes fileData \<Rightarrow>
          if length fileData = 0
          then (Inl (collectError k (Error (''File '' @ k @ '' is empty''))), w)
          else
            (let m = mutateJob e jid
                       (\<lambda>job. job\<lparr>filesCompleted := int i + 1,
                                  progress := collectProgress i n\<rparr>) w;
                 w2 = updateJobCaught e jid
                        ((noUpdates (fst m))\<lparr>upd_progress := Some (collectProgress i n),
                                             upd_filesCompleted := Some (int i + 1)\<rparr>) (snd m)
             in collectFiles e jid n (i + 1) rest
                  (tempFiles @ [\<lparr>key = k, data = fileData,
                                 checksum = calculateChecksum e fileData\<rparr>]) w2))"

text \<open>Phase 2, the integrity loop: the error of the first file whose recomputed
  checksum differs from the stored one.\<close>

fun verifyIntegrity :: "env \<Rightarrow> tempFile list \<Rightarrow> thrown option" where
  "verifyIntegrity e [] = None"
| "verifyIntegrity e (file # files) =
     (if calculateChecksum e (data file) \<noteq> checksum file
      then Some (Error (''Integrity check failed for file '' @ key file))
      else verifyIntegrity e files)"

text \<open>The key of the archive in the destination bucket: \<open>`${jobId}.zip`\<close>.\<close>

definition finalKey :: "string \<Rightarrow> string" where
  "finalKey jid = jid @ ''.zip''"

text \<open>Phase 4: the presigned URL, then the block that completes the job. The
  durable write is inside its own \<open>try\<close>.\<close>

definition phase4 :: "env \<Rightarrow> string \<Rightarrow> world \<Rightarrow> thrown option \<times> world" where
  "phase4 e jid w =
     (case getSignedUrl e (finalKey jid) of
        Inl t \<Rightarrow> (Some t, w)
      | Inr url \<Rightarrow>
          (let m = mutateJob e jid
                     (\<lambda>job. job\<lparr>status := Completed, progress := 100,
                                downloadUrl := Some url\<rparr>) w
           in (None, updateJobCaught e jid
                       ((noUpdates (fst m))\<lparr>upd_status := Some Completed,
                                            upd_progress := Some 100,
                                            upd_downloadUrl := Some url\<rparr>) (snd m))))"

text \<open>Phase 3: the upload under \<open>finalKey\<close>, then progress 75 with the durable
  write inside its own \<open>try\<close>. The metadata's \<open>new Date()\<close> is taken when the
  command is built.\<close>

definition phase3 :: "env \<Rightarrow> string \<Rightarrow> string list \<Rightarrow> buffer \<Rightarrow> world \<Rightarrow> thrown option \<times> world" where
  "phase3 e jid keys archiveBuffer w =
     (let stamp = now e (dateCalls w); w1 = w\<lparr>dateCalls := dateCalls w + 1\<rparr>
      in case putObject e (finalKey jid) of
           Some t \<Rightarrow> (Some t, w1)
         | None \<Rightarrow>
             (let w2 = w1\<lparr>downloads := (downloads w1)(finalKey jid \<mapsto>
                           \<lparr> Body = archiveBuffer, ContentType = ''application/zip'',
                             metaJobId = jid, metaFileCount = length keys,
                             metaCreatedAt = stamp \<rparr>)\<rparr>;
                  m = mutateJob e jid (\<lambda>job. job\<lparr>progress := 75\<rparr>) w2;
                  w4 = updateJobCaught e jid
                         ((noUpdates (fst m))\<lparr>upd_progress := Some 75\<rparr>) (snd m)
              in phase4 e jid w4))"

text \<open>Phase 2: the integrity loop, progress 30, the archive, progress 50. The two
  durable writes of this phase are plain calls, not wrapped in a \<open>try\<close> of their
  own: what the driver throws there leaves the phase like any other error.\<close>

definition phase2 :: "env \<Rightarrow> string \<Rightarrow> string list \<Rightarrow> tempFile list \<Rightarrow> world \<Rightarrow> thrown option \<times> world" where
  "phase2 e jid keys tempFiles w =
     (case verifyIntegrity e tempFiles of
        Some t \<Rightarrow> (Some t, w)
      | None \<Rightarrow>
          (let m = mutateJob e jid (\<lambda>job. job\<lparr>progress := 30\<rparr>) w
           in case updateJob e jid ((noUpdates (fst m))\<lparr>upd_progress := Some 30\<rparr>) (snd m) of
                (Some t, w2) \<Rightarrow> (Some t, w2)
              | (None, w2) \<Rightarrow>
                  (case archiver e (map (\<lambda>file. (key file, data file)) tempFiles) of
                     Inl t \<Rightarrow> (Some t, w2)
                   | Inr archiveBuffer \<Rightarrow>
                       (let m' = mutateJob e jid (\<lambda>job. job\<lparr>progress := 50\<rparr>) w2
                        in case updateJob e jid
                                  ((noUpdates (fst m'))\<lparr>upd_progress := Some 50\<rparr>) (snd m') of
                             (Some t, w4) \<Rightarrow> (Some t, w4)
                           | (None, w4) \<Rightarrow> phase3 e jid keys archiveBuffer w4))))"

text \<open>The body of the outer \<open>try\<close>: \<open>Some t\<close> when \<open>t\<close> is thrown out of it.\<close>

definition tryBody :: "env \<Rightarrow> string \<Rightarrow> string list \<Rightarrow> world \<Rightarrow> thrown option \<times> world" where
  "tryBody e jid keys w =
     (case collectFiles e jid (length keys) 0 keys [] w of
        (Inl t, w1) \<Rightarrow> (Some t, w1)
      | (Inr tempFiles, w1) \<Rightarrow> phase2 e jid keys tempFiles w1)"

text \<open>The outer \<open>catch\<close>: the job becomes failed with the message of the error, the
  durable write is inside its own \<open>try\<close>, and the error is thrown again.\<close>

definition failJob :: "env \<Rightarrow> string \<Rightarrow> thrown \<Rightarrow> world \<Rightarrow> world" where
  "failJob e jid t w =
     (let m = mutateJob e jid
                (\<lambda>job. job\<lparr>status := Failed, error := Some (errorMessage t)\<rparr>) w
      in updateJobCaught e jid
           ((noUpdates (fst m))\<lparr>upd_status := Some Failed,
                                upd_error := Some (errorMessage t)\<rparr>) (snd m))"

text \<open>\<open>processDownloadJob\<close>: \<open>None\<close> when the promise resolves, \<open>Some t\<close> when it
  rejects with \<open>t\<close>. The \<open>finally\<close> block empties the local \<open>tempFiles\<close> only.\<close>

definition processDownloadJob :: "env \<Rightarrow> string \<Rightarrow> string list \<Rightarrow> world \<Rightarrow> thrown option \<times> world" where
  "processDownloadJob e jid keys w =
     (case jobs w jid of
        None \<Rightarrow> (None, w)
      | Some job \<Rightarrow>
          (let m = mutateJob e jid (\<lambda>job. job\<lparr>status := Processing\<rparr>) w;
               w2 = updateJobCaught e jid
                      ((noUpdates (fst m))\<lparr>upd_status := Some Processing\<rparr>) (snd m)
           in case tryBody e jid keys w2 of
                (None, w3) \<Rightarrow> (None, w3)
              | (Some t, w3) \<Rightarrow> (Some t, failJob e jid t w3)))"

section \<open>Intake: \<open>POST /v1/download/initiate\<close>\<close>

text \<open>The validation loop: a key is kept when its \<open>HeadObject\<close> succeeds and is
  skipped, with a warning, when it throws.\<close>

fun validateKeys :: "env \<Rightarrow> string list \<Rightarrow> string list" where
  "validateKeys e [] = []"
| "validateKeys e (k # ks) =
     (if headObject e k then k # validateKeys e ks else validateKeys e ks)"

text \<open>The two answers of the handler: status 400 with \<open>error\<close> and \<open>message\<close>, and
  status 200 with \<open>jobId\<close>, \<open>status\<close> and \<open>totalFiles\<close> (the body also carries
  \<open>subscribeUrl\<close> and \<open>statusUrl\<close>, two paths that end in the job id).\<close>

datatype initiateResponse =
    BadRequest400 string string
  | Ok200 string statusValue nat

text \<open>The construction of the job record and \<open>jobs.set(jobId, jobStatus)\<close>. The
  handler makes no call to \<open>dbOperations\<close> here.\<close>

definition createJob :: "env \<Rightarrow> string \<Rightarrow> string list \<Rightarrow> world \<Rightarrow> world" where
  "createJob e uuid validKeys w =
     (let jobStatus =
            \<lparr> jobId = uuid, status = Queued, fileKeys = validKeys, progress = 0,
              filesCompleted = 0, totalFiles = int (length validKeys),
              downloadUrl = None, error = None,
              createdAt = now e (dateCalls w), updatedAt = now e (dateCalls w + 1) \<rparr>
      in w\<lparr>jobs := (jobs w)(uuid \<mapsto> jobStatus),
            observed := observed w @ [jobStatus],
            dateCalls := dateCalls w + 2\<rparr>)"

text \<open>The \<open>.catch\<close> the handler attaches to the background task.\<close>

definition catchHandler :: "env \<Rightarrow> string \<Rightarrow> thrown \<Rightarrow> world \<Rightarrow> world" where
  "catchHandler e uuid t w =
     (case jobs w uuid of
        None \<Rightarrow> w
      | Some job \<Rightarrow> failJob e uuid t w)"

text \<open>
  The handler; \<open>uuid\<close> is the value of \<open>crypto.randomUUID()\<close>. The background task
  is not awaited by the handler; the model runs it to its end, together with the
  \<open>.catch\<close>, so the world returned is the one in which the job has stopped
  changing.
\<close>

definition initiate :: "env \<Rightarrow> string \<Rightarrow> string list \<Rightarrow> world \<Rightarrow> initiateResponse \<times> world" where
  "initiate e uuid body_file_keys w =
     (let validKeys = validateKeys e body_file_keys
      in if length validKeys = 0
         then (BadRequest400 ''Validation Error'' ''No valid file keys found in source bucket'', w)
         else
           (let w1 = createJob e uuid validKeys w;
                r = processDownloadJob e uuid validKeys w1;
                w3 = (case fst r of
                        None \<Rightarrow> snd r
                      | Some t \<Rightarrow> catchHandler e uuid t (snd r))
            in (Ok200 uuid Queued (length validKeys), w3)))"

section \<open>Status poll and progress publisher\<close>

text \<open>The JSON bodies: the snapshot of the status endpoint, and the payload of a
  server-sent event (an absent \<open>downloadUrl\<close> or \<open>error\<close> is left out by
  \<open>JSON.stringify\<close>, here \<open>None\<close>).\<close>

datatype statusResponse =
    NotFound404
  | StatusOk string statusValue int int int "string option" "string option" int int

definition statusEndpoint :: "string \<Rightarrow> world \<Rightarrow> statusResponse" where
  "statusEndpoint jid w =
     (case jobs w jid of
        None \<Rightarrow> NotFound404
      | Some job \<Rightarrow>
          StatusOk (jobId job) (status job) (progress job) (filesCompleted job)
            (totalFiles job) (downloadUrl job) (error job) (createdAt job) (updatedAt job))"

datatype ssePayload =
    JobNotFound
  | Snapshot string statusValue int int int "string option" "string option"

datatype sseEvent = SSE string ssePayload

text \<open>The variables \<open>lastProgress\<close> and \<open>lastStatus\<close> of an attached subscriber whose
  interval is still set.\<close>

record subscription =
  lastProgress :: int
  lastStatus :: statusValue

text \<open>The start of the stream callback of \<open>GET /v1/download/subscribe/:jobId\<close>: the
  lookup (cache, then the durable store, which fills the cache), the events written
  before the interval is set, and the subscription when one is set. \<open>Inl\<close> when the
  durable read throws out of the callback.\<close>

definition subscribeAttach ::
  "env \<Rightarrow> string \<Rightarrow> world \<Rightarrow> (thrown + sseEvent list \<times> subscription option) \<times> world" where
  "subscribeAttach e jid w =
     (case jobs w jid of
        Some job \<Rightarrow>
          (Inr ([SSE ''progress'' (Snapshot (jobId job) (status job) (progress job)
                   (filesCompleted job) (totalFiles job) None None)],
                Some \<lparr>lastProgress = progress job, lastStatus = status job\<rparr>), w)
      | None \<Rightarrow>
          (case getJob e jid w of
             (Inl t, w1) \<Rightarrow> (Inl t, w1)
           | (Inr None, w1) \<Rightarrow> (Inr ([SSE ''error'' JobNotFound], None), w1)
           | (Inr (Some job), w1) \<Rightarrow>
               (Inr ([SSE ''progress'' (Snapshot (jobId job) (status job) (progress job)
                        (filesCompleted job) (totalFiles job) None None)],
                     Some \<lparr>lastProgress = progress job, lastStatus = status job\<rparr>),
                w1\<lparr>jobs := (jobs w1)(jid \<mapsto> job), observed := observed w1 @ [job]\<rparr>)))"

text \<open>One run of the interval callback: the events it writes and the subscription
  afterwards (\<open>None\<close> once \<open>clearInterval\<close> has been called).\<close>

definition pollTick :: "string \<Rightarrow> subscription \<Rightarrow> world \<Rightarrow> sseEvent list \<times> subscription option" where
  "pollTick jid s w =
     (case jobs w jid of
        None \<Rightarrow> ([], None)
      | Some currentJob \<Rightarrow>
          if progress currentJob \<noteq> lastProgress s \<or> status currentJob \<noteq> lastStatus s
          then
            (let eventType = (if status currentJob = Completed then ''complete''
                              else if status currentJob = Failed then ''error''
                              else ''progress'')
             in ([SSE eventType (Snapshot (jobId currentJob) (status currentJob)
                    (progress currentJob) (filesCompleted currentJob) (totalFiles currentJob)
                    (downloadUrl currentJob) (error currentJob))],
                 if status currentJob = Completed \<or> status currentJob = Failed then None
                 else Some \<lparr>lastProgress = progress currentJob,
                            lastStatus = status currentJob\<rparr>))
          else ([], Some s))"

text \<open>The events of \<open>k\<close> successive runs of the interval callback while the world
  stays as it is.\<close>

fun pollTicks :: "nat \<Rightarrow> string \<Rightarrow> subscription option \<Rightarrow> world \<Rightarrow> sseEvent list" where
  "pollTicks 0 jid s w = []"
| "pollTicks (Suc k) jid None w = []"
| "pollTicks (Suc k) jid (Some s) w =
     (let r = pollTick jid s w in fst r @ pollTicks k jid (snd r) w)"

text \<open>Everything a subscriber that attaches in world \<open>w\<close> has received after \<open>k\<close>
  runs of the interval callback.\<close>

definition subscribeEvents :: "env \<Rightarrow> nat \<Rightarrow> string \<Rightarrow> world \<Rightarrow> sseEvent list" where
  "subscribeEvents e k jid w =
     (case subscribeAttach e jid w of
        (Inl t, w1) \<Rightarrow> []
      | (Inr (events, s), w1) \<Rightarrow> events @ pollTicks k jid s w1)"


section \<open>Vocabulary of the statements\<close>

text \<open>The assignments the pipeline makes to the job object, block by block.\<close>

abbreviation setProcessing :: "JobStatus \<Rightarrow> JobStatus" where
  "setProcessing \<equiv> (\<lambda>job. job\<lparr>status := Processing\<rparr>)"

abbreviation collectUpd :: "nat \<Rightarrow> nat \<Rightarrow> JobStatus \<Rightarrow> JobStatus" where
  "collectUpd n i \<equiv> (\<lambda>job. job\<lparr>filesCompleted := int i + 1, progress := collectProgress i n\<rparr>)"

abbreviation setProgress :: "int \<Rightarrow> JobStatus \<Rightarrow> JobStatus" where
  "setProgress p \<equiv> (\<lambda>job. job\<lparr>progress := p\<rparr>)"

abbreviation setDone :: "string \<Rightarrow> JobStatus \<Rightarrow> JobStatus" where
  "setDone url \<equiv> (\<lambda>job. job\<lparr>status := Completed, progress := 100, downloadUrl := Some url\<rparr>)"

abbreviation setFailed :: "string \<Rightarrow> JobStatus \<Rightarrow> JobStatus" where
  "setFailed msg \<equiv> (\<lambda>job. job\<lparr>status := Failed, error := Some msg\<rparr>)"

text \<open>
  How a run shows in the cache. \<open>touched f a b\<close>: the state \<open>b\<close> is \<open>a\<close> after
  the block of assignments \<open>f\<close> and a new \<open>updatedAt\<close>. \<open>follows a fs js\<close>: the
  states \<open>js\<close> are the ones the blocks \<open>fs\<close> produce one after the other from
  \<open>a\<close>. \<open>runs jid fs w w'\<close>: between the worlds \<open>w\<close> and \<open>w'\<close> the job \<open>jid\<close> has
  gone through the blocks \<open>fs\<close>, each one recorded in \<open>observed\<close>, and the cache
  holds the last state.
\<close>

definition touched :: "(JobStatus \<Rightarrow> JobStatus) \<Rightarrow> JobStatus \<Rightarrow> JobStatus \<Rightarrow> bool" where
  "touched f a b \<longleftrightarrow> (\<exists>t. b = (f a)\<lparr>updatedAt := t\<rparr>)"

fun follows :: "JobStatus \<Rightarrow> (JobStatus \<Rightarrow> JobStatus) list \<Rightarrow> JobStatus list \<Rightarrow> bool" where
  "follows a [] js = (js = [])"
| "follows a (f # fs) [] = False"
| "follows a (f # fs) (b # bs) = (touched f a b \<and> follows b fs bs)"

definition runs :: "string \<Rightarrow> (JobStatus \<Rightarrow> JobStatus) list \<Rightarrow> world \<Rightarrow> world \<Rightarrow> bool" where
  "runs jid fs w w' \<longleftrightarrow>
     (\<exists>a js. jobs w jid = Some a \<and> follows a fs js \<and> observed w' = observed w @ js
             \<and> jobs w' jid = Some (last (a # js)))"

text \<open>The three fixed checkpoints of phases 2 and 3.\<close>

abbreviation checkpoints :: "(JobStatus \<Rightarrow> JobStatus) list" where
  "checkpoints \<equiv> [setProgress 30, setProgress 50, setProgress 75]"

text \<open>
  The fetch of a key in the collection loop: \<open>fetchFails\<close> when the loop throws on
  it (the send or the stream throws, there is no body, or the body is empty),
  \<open>fetchCause\<close> the error the inner \<open>catch\<close> then receives, \<open>fetched\<close> the element
  pushed on \<open>tempFiles\<close> otherwise.
\<close>

definition fetchFails :: "env \<Rightarrow> string \<Rightarrow> bool" where
  "fetchFails e k =
     (case getObject e k of SendThrows t \<Rightarrow> True | NoBody \<Rightarrow> True
      | BodyBytes fileData \<Rightarrow> length fileData = 0)"

definition fetchCause :: "env \<Rightarrow> string \<Rightarrow> thrown" where
  "fetchCause e k =
     (case getObject e k of
        SendThrows t \<Rightarrow> t
      | NoBody \<Rightarrow> Error (''File '' @ k @ '' has no body'')
      | BodyBytes fileData \<Rightarrow> Error (''File '' @ k @ '' is empty''))"

definition fetched :: "env \<Rightarrow> string \<Rightarrow> tempFile" where
  "fetched e k =
     (let fileData = (case getObject e k of BodyBytes d \<Rightarrow> d | _ \<Rightarrow> [])
      in \<lparr>key = k, data = fileData, checksum = calculateChecksum e fileData\<rparr>)"

text \<open>The last block of the outer \<open>try\<close>, run only when nothing was thrown.\<close>

definition finish :: "thrown option \<Rightarrow> string \<Rightarrow> (JobStatus \<Rightarrow> JobStatus) list" where
  "finish r url = (case r of None \<Rightarrow> [setDone url] | Some t \<Rightarrow> [])"

text \<open>The assignments of one run of \<open>processDownloadJob\<close> on \<open>n\<close> keys that
  collects \<open>m\<close> files, passes \<open>k\<close> of the three checkpoints and settles with
  \<open>r\<close>; and the one the \<open>.catch\<close> of the handler adds.\<close>

definition script ::
  "nat \<Rightarrow> nat \<Rightarrow> nat \<Rightarrow> thrown option \<Rightarrow> string \<Rightarrow> (JobStatus \<Rightarrow> JobStatus) list" where
  "script n m k r url =
     setProcessing # map (collectUpd n) [0..<m] @ take k checkpoints @
       (case r of None \<Rightarrow> [setDone url] | Some t \<Rightarrow> [setFailed (errorMessage t)])"

definition caught :: "thrown option \<Rightarrow> (JobStatus \<Rightarrow> JobStatus) list" where
  "caught r = (case r of None \<Rightarrow> [] | Some t \<Rightarrow> [setFailed (errorMessage t)])"

text \<open>The record the handler builds for a new job.\<close>

definition queuedJob :: "env \<Rightarrow> string \<Rightarrow> string list \<Rightarrow> world \<Rightarrow> JobStatus" where
  "queuedJob e uuid validKeys w =
     \<lparr> jobId = uuid, status = Queued, fileKeys = validKeys, progress = 0,
       filesCompleted = 0, totalFiles = int (length validKeys),
       downloadUrl = None, error = None,
       createdAt = now e (dateCalls w), updatedAt = now e (dateCalls w + 1) \<rparr>"

text \<open>What the cache showed of the jobs between two worlds.\<close>

definition history :: "world \<Rightarrow> world \<Rightarrow> JobStatus list" where
  "history w w' = drop (length (observed w)) (observed w')"

text \<open>A job object with its \<open>updatedAt\<close> put aside, an assignment that does not
  read or write \<open>updatedAt\<close>, and the states a list of assignments goes through.\<close>

definition untimed :: "JobStatus \<Rightarrow> JobStatus" where
  "untimed job = job\<lparr>updatedAt := 0\<rparr>"

definition timeless :: "(JobStatus \<Rightarrow> JobStatus) \<Rightarrow> bool" where
  "timeless f \<longleftrightarrow> (\<forall>job t. f (job\<lparr>updatedAt := t\<rparr>) = (f job)\<lparr>updatedAt := t\<rparr>)"

fun scan :: "JobStatus \<Rightarrow> (JobStatus \<Rightarrow> JobStatus) list \<Rightarrow> JobStatus list" where
  "scan a [] = []"
| "scan a (f # fs) = f a # scan (f a) fs"

text \<open>
  The properties of a job's history. \<open>progressStep\<close> relates two successive states:
  progress and \<open>filesCompleted\<close> do not decrease, \<open>filesCompleted\<close> stays within
  \<open>totalFiles\<close>, and \<open>totalFiles\<close> does not change. \<open>outcomeOK\<close> relates a state's
  status to its \<open>downloadUrl\<close> and \<open>error\<close>. \<open>terminalKept\<close> relates two
  successive states: a terminal status stays. \<open>identityKept\<close> relates two successive
  states: the id, the keys and the creation instant do not change.
\<close>

definition progressStep :: "JobStatus \<Rightarrow> JobStatus \<Rightarrow> bool" where
  "progressStep a b \<longleftrightarrow>
     progress a \<le> progress b \<and> filesCompleted a \<le> filesCompleted b
     \<and> filesCompleted b \<le> totalFiles b \<and> totalFiles b = totalFiles a"

definition outcomeOK :: "JobStatus \<Rightarrow> bool" where
  "outcomeOK job =
     (case status job of
        Completed \<Rightarrow> downloadUrl job \<noteq> None \<and> error job = None
      | Failed \<Rightarrow> error job \<noteq> None \<and> downloadUrl job = None
      | Queued \<Rightarrow> downloadUrl job = None \<and> error job = None
      | Processing \<Rightarrow> downloadUrl job = None \<and> error job = None)"

definition terminalKept :: "JobStatus \<Rightarrow> JobStatus \<Rightarrow> bool" where
  "terminalKept a b =
     (case status a of
        Completed \<Rightarrow> status b = Completed
      | Failed \<Rightarrow> status b = Failed
      | Queued \<Rightarrow> True
      | Processing \<Rightarrow> True)"

definition identityKept :: "JobStatus \<Rightarrow> JobStatus \<Rightarrow> bool" where
  "identityKept a b \<longleftrightarrow>
     jobId b = jobId a \<and> fileKeys b = fileKeys a \<and> createdAt b = createdAt a"

definition lifeStep :: "JobStatus \<Rightarrow> JobStatus \<Rightarrow> bool" where
  "lifeStep a b \<longleftrightarrow>
     progressStep a b \<and> identityKept a b \<and> terminalKept a b \<and> outcomeOK b"

text \<open>A list of assignments, started in any state that satisfies \<open>I\<close>, goes through
  states related by \<open>R\<close> and ends in a state that satisfies \<open>J\<close>.\<close>

definition steps ::
  "(JobStatus \<Rightarrow> JobStatus \<Rightarrow> bool) \<Rightarrow> (JobStatus \<Rightarrow> bool)
     \<Rightarrow> (JobStatus \<Rightarrow> JobStatus) list \<Rightarrow> (JobStatus \<Rightarrow> bool) \<Rightarrow> bool" where
  "steps R I fs J \<longleftrightarrow>
     (\<forall>a. I a \<longrightarrow> successively R (a # scan a fs) \<and> J (last (a # scan a fs)))"

text \<open>The states of a job between two blocks: just created; being processed with at most \<open>q\<close>
  files collected out of \<open>n\<close>; being processed with progress at most \<open>c\<close>; and
  settled as the outcome \<open>r\<close> of the run says.\<close>

definition created :: "nat \<Rightarrow> JobStatus \<Rightarrow> bool" where
  "created n job \<longleftrightarrow>
     status job = Queued \<and> downloadUrl job = None \<and> error job = None
     \<and> totalFiles job = int n \<and> filesCompleted job = 0 \<and> progress job = 0"

definition collecting :: "nat \<Rightarrow> nat \<Rightarrow> JobStatus \<Rightarrow> bool" where
  "collecting n q job \<longleftrightarrow>
     status job = Processing \<and> downloadUrl job = None \<and> error job = None
     \<and> totalFiles job = int n \<and> filesCompleted job \<le> int q
     \<and> progress job \<le> (if q = 0 then 0 else collectProgress (q - 1) n)"

definition working :: "nat \<Rightarrow> int \<Rightarrow> JobStatus \<Rightarrow> bool" where
  "working n c job \<longleftrightarrow>
     status job = Processing \<and> downloadUrl job = None \<and> error job = None
     \<and> totalFiles job = int n \<and> filesCompleted job \<le> int n \<and> progress job \<le> c"

definition settled :: "nat \<Rightarrow> thrown option \<Rightarrow> string \<Rightarrow> JobStatus \<Rightarrow> bool" where
  "settled n r url job \<longleftrightarrow>
     totalFiles job = int n \<and> filesCompleted job \<le> int n \<and>
     (case r of
        None \<Rightarrow> status job = Completed \<and> progress job = 100
                 \<and> downloadUrl job = Some url \<and> error job = None
      | Some t \<Rightarrow> status job = Failed \<and> error job = Some (errorMessage t)
                   \<and> downloadUrl job = None)"



text \<open>The same sequence with the value the pipeline computes in binary64.\<close>

definition writtenSequence :: "nat \<Rightarrow> int list" where
  "writtenSequence n = map (\<lambda>i. collectProgress i n) [0..<n] @ [30, 50, 75, 100]"

text \<open>Every store operation of a run on \<open>keys\<close> succeeds: no fetch fails, the
  archiver, the upload and the presigner return, and the durable store never
  throws.\<close>

definition storesSucceed :: "env \<Rightarrow> string \<Rightarrow> string list \<Rightarrow> bool" where
  "storesSucceed e jid keys \<longleftrightarrow>
     find (fetchFails e) keys = None
     \<and> (case archiver e (map (\<lambda>file. (key file, data file)) (map (fetched e) keys)) of
          Inl t \<Rightarrow> False | Inr archiveBuffer \<Rightarrow> True)
     \<and> putObject e (finalKey jid) = None
     \<and> (case getSignedUrl e (finalKey jid) of Inl t \<Rightarrow> False | Inr url \<Rightarrow> True)"

text \<open>
  The blocks of \<open>processDownloadJob\<close> between its phases, each as the world it
  leaves. \<open>startProcessing\<close>: the block before the outer \<open>try\<close>, which sets the
  status to processing. \<open>writeCheckpoint\<close>: the block that sets progress to a fixed
  value and writes it to the durable store, when that write returns.
  \<open>putArchive\<close>: the \<open>PutObjectCommand\<close> under \<open>finalKey\<close>, when the send returns.
  \<open>completeJob\<close>: the block that completes the job with the presigned URL.
\<close>

definition startProcessing :: "env \<Rightarrow> string \<Rightarrow> world \<Rightarrow> world" where
  "startProcessing e jid w =
     (let m = mutateJob e jid (\<lambda>job. job\<lparr>status := Processing\<rparr>) w
      in updateJobCaught e jid
           ((noUpdates (fst m))\<lparr>upd_status := Some Processing\<rparr>) (snd m))"



definition putArchive :: "env \<Rightarrow> string \<Rightarrow> string list \<Rightarrow> buffer \<Rightarrow> world \<Rightarrow> world" where
  "putArchive e jid keys archiveBuffer w =
     w\<lparr>dateCalls := dateCalls w + 1,
       downloads := (downloads w)(finalKey jid \<mapsto>
         \<lparr> Body = archiveBuffer, ContentType = ''application/zip'',
           metaJobId = jid, metaFileCount = length keys,
           metaCreatedAt = now e (dateCalls w) \<rparr>)\<rparr>"

text \<open>
  What \<open>processDownloadJob\<close> does once the collection loop has returned
  \<open>tempFiles\<close>: phases 2 to 4, and the outer \<open>catch\<close> on what they throw. The
  integrity loop compares, for each file, the checksum of its bytes with the stored
  one; \<open>mismatch\<close> is a file on which they differ.
\<close>

definition afterCollect ::
  "env \<Rightarrow> string \<Rightarrow> string list \<Rightarrow> tempFile list \<Rightarrow> world \<Rightarrow> thrown option \<times> world" where
  "afterCollect e jid keys tempFiles w =
     (case phase2 e jid keys tempFiles w of
        (None, w3) \<Rightarrow> (None, w3)
      | (Some t, w3) \<Rightarrow> (Some t, failJob e jid t w3))"

definition mismatch :: "env \<Rightarrow> tempFile \<Rightarrow> bool" where
  "mismatch e file \<longleftrightarrow> calculateChecksum e (data file) \<noteq> checksum file"

section \<open>Example stores and worlds\<close>

text \<open>A source bucket with three objects, one empty object and one object that
  answers the head check and is gone when it is fetched; a destination that accepts
  every upload; a durable store that never throws; and the world of a process that
  has just started on an empty table.\<close>

definition storeEnv :: env where
  "storeEnv =
     \<lparr> headObject = (\<lambda>k. k = ''a.txt'' \<or> k = ''b.txt'' \<or> k = ''c.txt''
                          \<or> k = ''empty.txt'' \<or> k = ''gone.txt''),
       getObject = (\<lambda>k. if k = ''a.txt'' then BodyBytes ''alpha''
                         else if k = ''b.txt'' then BodyBytes ''beta''
                         else if k = ''c.txt'' then BodyBytes ''gamma''
                         else if k = ''empty.txt'' then BodyBytes []
                         else SendThrows (Error ''NoSuchKey'')),
       sha256hex = (\<lambda>b. ''sha256:'' @ b),
       archiver = (\<lambda>entries. Inr (concat (map (\<lambda>(name, bytes). name @ bytes) entries))),
       putObject = (\<lambda>k. None),
       getSignedUrl = (\<lambda>k. Inr (''http://localhost:9000/downloads/'' @ k)),
       dbThrows = (\<lambda>k. None),
       now = (\<lambda>k. int k) \<rparr>"

definition freshWorld :: world where
  "freshWorld =
     \<lparr> jobs = Map.empty, db = Map.empty, downloads = Map.empty,
       dbCalls = 0, dateCalls = 0, observed = [] \<rparr>"

text \<open>The same stores with a durable store whose call number \<open>c\<close> throws.\<close>

definition busyAt :: "nat \<Rightarrow> env" where
  "busyAt c =
     storeEnv\<lparr>dbThrows :=
       (\<lambda>k. if k = c then Some (Error ''SQLITE_BUSY: database is locked'') else None)\<rparr>"

text \<open>A process started on a table that already holds the row of a completed job.\<close>

definition storedRow :: JobRecord where
  "storedRow =
     \<lparr> job_id = ''job-9'', row_status = Completed, file_keys = [''a.txt''],
       row_progress = 100, files_completed = 1, total_files = 1,
       download_url = Some ''http://localhost:9000/downloads/job-9.zip'', row_error = None,
       created_at = 0, updated_at = 9 \<rparr>"

definition restartedWorld :: world where
  "restartedWorld = freshWorld\<lparr>db := [''job-9'' \<mapsto> storedRow]\<rparr>"

text \<open>A collected file whose stored checksum is not the checksum of its bytes.\<close>

definition tampered :: tempFile where
  "tampered = \<lparr>key = ''b.txt'', data = ''beta'', checksum = ''sha256:other''\<rparr>"

section \<open>Rounding lemmas\<close>

lemma bitlen_powi:
  assumes "0 < p"
  shows "(2::rat) powi (bitlen p - 1) \<le> of_int p" and "of_int p < (2::rat) powi bitlen p"
proof -
  have b1: "1 \<le> bitlen p"
    using assms bitlen_eq_zero_iff [of p] bitlen_nonneg [of p] by linarith
  have lo: "2 ^ nat (bitlen p - 1) \<le> p" and hi: "p < 2 ^ nat (bitlen p)"
    using bitlen_bounds [OF assms] by simp_all
  have "(of_int (2 ^ nat (bitlen p - 1)) :: rat) \<le> of_int p"
    using lo by (simp only: of_int_le_iff)
  then show "(2::rat) powi (bitlen p - 1) \<le> of_int p"
    using b1 by (simp add: power_int_nonneg_exp)
  have "(of_int p :: rat) < of_int (2 ^ nat (bitlen p))"
    using hi by (simp only: of_int_less_iff)
  then show "of_int p < (2::rat) powi bitlen p"
    using b1 by (simp add: power_int_nonneg_exp)
qed

lemma binade_bounds:
  assumes "0 < x"
  shows "2 powi binade x \<le> x" and "x < 2 powi (binade x + 1)"
proof -
  obtain p q where pq: "quotient_of x = (p, q)" by (cases "quotient_of x")
  have q: "0 < q" using pq by (rule quotient_of_denom_pos)
  have x: "x = of_int p / of_int q" using pq by (rule quotient_of_div)
  have p: "0 < p" using assms q x by (simp add: zero_less_divide_iff)
  define b where "b = bitlen p - bitlen q"
  have bin: "binade x = (if 2 powi b \<le> x then b else b - 1)"
    by (simp add: binade_def pq b_def)
  have Q: "(0::rat) < of_int q" using q by simp
  have "x * of_int q < 2 powi bitlen p" using bitlen_powi(2) [OF p] x Q by simp
  also have "\<dots> = 2 powi (b + 1) * 2 powi (bitlen q - 1)"
    by (simp add: b_def flip: power_int_add)
  also have "\<dots> \<le> 2 powi (b + 1) * of_int q"
    using bitlen_powi(1) [OF q] by (simp add: mult_left_mono)
  finally have up: "x < 2 powi (b + 1)" using Q by simp
  have "(2::rat) powi (b - 1) * of_int q < 2 powi (b - 1) * 2 powi bitlen q"
    using bitlen_powi(2) [OF q] by simp
  also have "\<dots> = 2 powi (bitlen p - 1)"
    by (simp add: b_def flip: power_int_add)
  also have "\<dots> \<le> x * of_int q" using bitlen_powi(1) [OF p] x Q by simp
  finally have lo: "2 powi (b - 1) \<le> x" using Q by simp
  show "2 powi binade x \<le> x" using lo by (simp add: bin)
  show "x < 2 powi (binade x + 1)" using up by (auto simp add: bin not_le)
qed

lemma binade_mono:
  assumes "0 < x" "x \<le> y"
  shows "binade x \<le> binade y"
proof -
  have "(2::rat) powi binade x < 2 powi (binade y + 1)"
    using binade_bounds(1) [OF assms(1)] binade_bounds(2) [of y] assms by linarith
  moreover have "(2::rat) powi (binade y + 1) \<le> 2 powi binade x" if "binade y + 1 \<le> binade x"
    using that by (simp add: power_int_increasing)
  ultimately show ?thesis by force
qed

lemma roundTiesToEven_floor:
  "\<lfloor>x\<rfloor> \<le> roundTiesToEven x" "roundTiesToEven x \<le> \<lfloor>x\<rfloor> + 1"
  by (simp_all add: roundTiesToEven_def Let_def)

lemma roundTiesToEven_of_int [simp]: "roundTiesToEven (of_int k) = k"
  by (simp add: roundTiesToEven_def)

lemma roundTiesToEven_mono:
  assumes "x \<le> y"
  shows "roundTiesToEven x \<le> roundTiesToEven y"
proof (cases "\<lfloor>x\<rfloor> = \<lfloor>y\<rfloor>")
  case True
  then show ?thesis using assms by (auto simp add: roundTiesToEven_def Let_def)
next
  case False
  then have "\<lfloor>x\<rfloor> + 1 \<le> \<lfloor>y\<rfloor>" using floor_mono [OF assms] by linarith
  then show ?thesis
    using roundTiesToEven_floor(2) [of x] roundTiesToEven_floor(1) [of y] by linarith
qed

lemma toDouble_binade_bounds:
  assumes "0 < x"
  shows "2 powi binade x \<le> toDouble x" and "toDouble x \<le> 2 powi (binade x + 1)"
proof -
  define u :: rat where "u = 2 powi (binade x - 52)"
  have u: "0 < u" by (simp add: u_def)
  have td: "toDouble x = of_int (roundTiesToEven (x / u)) * u"
    using assms by (simp add: toDouble_def u_def Let_def)
  have e1: "2 powi binade x = of_int (2 ^ 52) * u"
    using power_int_add [of "2::rat" 52 "binade x - 52"] by (simp add: u_def)
  have e2: "2 powi (binade x + 1) = of_int (2 ^ 53) * u"
    using power_int_add [of "2::rat" 53 "binade x - 52"] by (simp add: u_def add.commute)
  have "of_int (2 ^ 52) \<le> x / u"
    using binade_bounds(1) [OF assms] u unfolding e1 by (simp add: pos_le_divide_eq)
  from roundTiesToEven_mono [OF this] have "2 ^ 52 \<le> roundTiesToEven (x / u)"
    by (simp only: roundTiesToEven_of_int)
  then have "(of_int (2 ^ 52) :: rat) \<le> of_int (roundTiesToEven (x / u))"
    by (simp only: of_int_le_iff)
  then show "2 powi binade x \<le> toDouble x"
    unfolding e1 td using u by (simp only: mult_le_cancel_right_pos)
  have "x / u \<le> of_int (2 ^ 53)"
    using binade_bounds(2) [OF assms] u unfolding e2 by (simp add: pos_divide_le_eq)
  from roundTiesToEven_mono [OF this] have "roundTiesToEven (x / u) \<le> 2 ^ 53"
    by (simp only: roundTiesToEven_of_int)
  then have "(of_int (roundTiesToEven (x / u)) :: rat) \<le> of_int (2 ^ 53)"
    by (simp only: of_int_le_iff)
  then show "toDouble x \<le> 2 powi (binade x + 1)"
    unfolding e2 td using u by (simp only: mult_le_cancel_right_pos)
qed

lemma toDouble_nonneg: "0 \<le> toDouble x"
proof (cases "0 < x")
  case True
  have "(0::rat) \<le> 2 powi binade x" by simp
  then show ?thesis using toDouble_binade_bounds(1) [OF True] by linarith
next
  case False
  then show ?thesis by (simp add: toDouble_def)
qed

lemma toDouble_mono:
  assumes "x \<le> y"
  shows "toDouble x \<le> toDouble y"
proof (cases "0 < x")
  case False
  then show ?thesis using toDouble_nonneg [of y] by (simp add: toDouble_def)
next
  case True
  then have y: "0 < y" using assms by simp
  show ?thesis
  proof (cases "binade x = binade y")
    case same: True
    define u :: rat where "u = 2 powi (binade y - 52)"
    have u: "0 < u" by (simp add: u_def)
    have "x / u \<le> y / u" using assms u by (simp add: divide_right_mono)
    from roundTiesToEven_mono [OF this]
    have "(of_int (roundTiesToEven (x / u)) :: rat) \<le> of_int (roundTiesToEven (y / u))"
      by (simp only: of_int_le_iff)
    then have "of_int (roundTiesToEven (x / u)) * u \<le> of_int (roundTiesToEven (y / u)) * u"
      using u by (simp only: mult_le_cancel_right_pos)
    then show ?thesis using True y same by (simp add: toDouble_def u_def Let_def)
  next
    case False
    then have "binade x + 1 \<le> binade y" using binade_mono [OF True assms] by simp
    then have "(2::rat) powi (binade x + 1) \<le> 2 powi binade y"
      by (simp add: power_int_increasing)
    then show ?thesis
      using toDouble_binade_bounds(2) [OF True] toDouble_binade_bounds(1) [OF y] by linarith
  qed
qed

lemma MathRound_mono: "x \<le> y \<Longrightarrow> MathRound x \<le> MathRound y"
  by (simp add: MathRound_def floor_mono)

lemma collectProgress_mono:
  assumes "i \<le> j"
  shows "collectProgress i n \<le> collectProgress j n"
proof -
  have "(of_nat (i + 1) :: rat) / of_nat n \<le> of_nat (j + 1) / of_nat n"
    using assms by (simp add: divide_right_mono)
  then have "toDouble (of_nat (i + 1) / of_nat n) * 25 \<le> toDouble (of_nat (j + 1) / of_nat n) * 25"
    using toDouble_mono by simp
  then show ?thesis
    unfolding collectProgress_def by (intro MathRound_mono toDouble_mono)
qed

lemma toDouble_1: "toDouble 1 = 1" by code_simp
lemma toDouble_25: "toDouble 25 = 25" by code_simp

lemma collectProgress_last:
  assumes "0 < n"
  shows "collectProgress (n - 1) n = 25"
proof -
  have n: "n - 1 + 1 = n" using assms by simp
  have q: "(of_nat n :: rat) / of_nat n = 1" using assms by simp
  have "toDouble (toDouble 1 * 25) = 25" by (simp only: toDouble_1 toDouble_25 mult_1)
  moreover have "MathRound 25 = 25" by code_simp
  ultimately show ?thesis by (simp only: collectProgress_def n q)
qed

lemma collectProgress_nonneg: "0 \<le> collectProgress i n"
proof -
  have "0 \<le> toDouble (toDouble (of_nat (i + 1) / of_nat n) * 25) + 1 / 2"
    using toDouble_nonneg [of "toDouble (of_nat (i + 1) / of_nat n) * 25"] by simp
  then show ?thesis unfolding collectProgress_def MathRound_def by simp
qed

lemma collectProgress_le_25:
  assumes "i < n"
  shows "collectProgress i n \<le> 25"
  using collectProgress_mono [of i "n - 1" n] collectProgress_last [of n] assms by simp

section \<open>Steps of the pipeline\<close>

lemma mutateJob_fst [simp]: "fst (mutateJob e jid f w) = now e (dateCalls w)"
  by (simp add: mutateJob_def Let_def split: option.split)

lemma mutateJob_frame [simp]:
  "downloads (snd (mutateJob e jid f w)) = downloads w"
  "db (snd (mutateJob e jid f w)) = db w"
  "dbCalls (snd (mutateJob e jid f w)) = dbCalls w"
  "dateCalls (snd (mutateJob e jid f w)) = dateCalls w + 1"
  by (simp_all add: mutateJob_def Let_def split: option.split)

lemma mutateJob_jobs:
  "jobs w jid = Some a \<Longrightarrow>
     jobs (snd (mutateJob e jid f w)) = (jobs w)(jid \<mapsto> (f a)\<lparr>updatedAt := now e (dateCalls w)\<rparr>)"
  "jobs w jid = Some a \<Longrightarrow>
     observed (snd (mutateJob e jid f w)) = observed w @ [(f a)\<lparr>updatedAt := now e (dateCalls w)\<rparr>]"
  by (simp_all add: mutateJob_def Let_def)

lemma updateJob_frame [simp]:
  "jobs (snd (updateJob e jid u w)) = jobs w"
  "observed (snd (updateJob e jid u w)) = observed w"
  "downloads (snd (updateJob e jid u w)) = downloads w"
  "dateCalls (snd (updateJob e jid u w)) = dateCalls w"
  "dbCalls (snd (updateJob e jid u w)) = dbCalls w + 1"
  "fst (updateJob e jid u w) = dbThrows e (dbCalls w)"
  by (simp_all add: updateJob_def Let_def split: option.split)

lemma updateJobCaught_frame [simp]:
  "jobs (updateJobCaught e jid u w) = jobs w"
  "observed (updateJobCaught e jid u w) = observed w"
  "downloads (updateJobCaught e jid u w) = downloads w"
  "dateCalls (updateJobCaught e jid u w) = dateCalls w"
  "dbCalls (updateJobCaught e jid u w) = dbCalls w + 1"
  by (simp_all add: updateJobCaught_def)

lemma updateJob_db_dom [simp]: "dom (db (snd (updateJob e jid u w))) = dom (db w)"
  by (auto simp add: updateJob_def Let_def split: option.splits)

lemma follows_append:
  "follows a fs js \<Longrightarrow> follows (last (a # js)) gs ks \<Longrightarrow> follows a (fs @ gs) (js @ ks)"
proof (induction fs arbitrary: a js)
  case Nil
  then show ?case by simp
next
  case (Cons f fs)
  then show ?case by (cases js) auto
qed

lemma runs_trans:
  assumes "runs jid fs w w1" and "runs jid gs w1 w2"
  shows "runs jid (fs @ gs) w w2"
proof -
  from assms(1) obtain a js where 1: "jobs w jid = Some a" "follows a fs js"
    "observed w1 = observed w @ js" "jobs w1 jid = Some (last (a # js))"
    unfolding runs_def by blast
  from assms(2) 1(4) obtain ks where 2: "follows (last (a # js)) gs ks"
    "observed w2 = observed w1 @ ks" "jobs w2 jid = Some (last (last (a # js) # ks))"
    unfolding runs_def by auto
  have "last (last (a # js) # ks) = last (a # js @ ks)" by simp
  then show ?thesis
    unfolding runs_def using 1 2 follows_append [OF 1(2) 2(1)]
    by (intro exI [of _ a] exI [of _ "js @ ks"]) simp
qed

lemma runs_refl: "jobs w jid = Some a \<Longrightarrow> runs jid [] w w"
  by (simp add: runs_def)

lemma runs_same:
  "jobs w jid = Some a \<Longrightarrow> jobs w' = jobs w \<Longrightarrow> observed w' = observed w \<Longrightarrow> runs jid [] w w'"
  by (simp add: runs_def)

lemma runs_present: "runs jid fs w w' \<Longrightarrow> \<exists>b. jobs w' jid = Some b"
  by (auto simp add: runs_def)

lemma runs_mutate_update:
  "jobs w jid = Some a \<Longrightarrow>
     runs jid [f] w (updateJobCaught e jid u (snd (mutateJob e jid f w)))"
  "jobs w jid = Some a \<Longrightarrow>
     runs jid [f] w (snd (updateJob e jid u (snd (mutateJob e jid f w))))"
  by (auto simp add: runs_def mutateJob_jobs touched_def)

lemma phase4_runs:
  assumes "jobs w jid = Some a" and "phase4 e jid w = (r, w')"
  shows "downloads w' = downloads w \<and> (\<exists>url. runs jid (finish r url) w w')"
  using assms runs_mutate_update(1) [OF assms(1)] runs_refl [OF assms(1)]
  by (auto simp add: phase4_def Let_def finish_def split: sum.splits)

lemma collectFiles_runs:
  assumes "jobs w jid = Some a" and "collectFiles e jid n i ks temps w = (r, w')"
  shows "downloads w' = downloads w \<and>
         (\<exists>m\<le>length ks. runs jid (map (collectUpd n) [i..<i + m]) w w' \<and>
            (case r of Inr temps' \<Rightarrow> m = length ks | Inl t \<Rightarrow> m < length ks))"
  using assms
proof (induction ks arbitrary: i temps w a)
  case Nil
  then show ?case using runs_refl [of w jid a] by auto
next
  case (Cons k rest)
  show ?case
  proof (cases "fetchFails e k")
    case True
    then have "r = Inl (collectError k (fetchCause e k)) \<and> w' = w"
      using Cons.prems(2)
      by (auto simp add: fetchFails_def fetchCause_def split: getObjectResult.splits if_splits)
    then show ?thesis using runs_refl [OF Cons.prems(1)] by (intro conjI exI [of _ 0]) auto
  next
    case False
    then obtain fileData where fd: "getObject e k = BodyBytes fileData" "length fileData \<noteq> 0"
      by (auto simp add: fetchFails_def split: getObjectResult.splits)
    define w2 where "w2 = updateJobCaught e jid
        ((noUpdates (now e (dateCalls w)))\<lparr>upd_progress := Some (collectProgress i n),
                                           upd_filesCompleted := Some (int i + 1)\<rparr>)
        (snd (mutateJob e jid (collectUpd n i) w))"
    have step: "runs jid [collectUpd n i] w w2"
      unfolding w2_def using Cons.prems(1) by (rule runs_mutate_update(1))
    then obtain b where b: "jobs w2 jid = Some b" using runs_present by blast
    have rec: "collectFiles e jid n (i + 1) rest
         (temps @ [\<lparr>key = k, data = fileData, checksum = calculateChecksum e fileData\<rparr>]) w2
         = (r, w')"
      using Cons.prems(2) fd by (simp add: Let_def w2_def)
    from Cons.IH [OF b rec] obtain m where m: "downloads w' = downloads w2" "m \<le> length rest"
      "runs jid (map (collectUpd n) [i + 1..<i + 1 + m]) w2 w'"
      "(case r of Inr temps' \<Rightarrow> m = length rest | Inl t \<Rightarrow> m < length rest)"
      by blast
    have "[i..<i + Suc m] = i # [i + 1..<i + 1 + m]" by (simp add: upt_conv_Cons)
    then have "runs jid (map (collectUpd n) [i..<i + Suc m]) w w'"
      using runs_trans [OF step m(3)] by simp
    moreover have "downloads w2 = downloads w" by (simp add: w2_def)
    ultimately show ?thesis using m
      by (intro conjI exI [of _ "Suc m"]) (auto split: sum.splits)
  qed
qed

lemma collectFiles_result:
  "fst (collectFiles e jid n i ks temps w) =
     (case find (fetchFails e) ks of
        Some k \<Rightarrow> Inl (collectError k (fetchCause e k))
      | None \<Rightarrow> Inr (temps @ map (fetched e) ks))"
proof (induction ks arbitrary: i temps w)
  case Nil
  then show ?case by simp
next
  case (Cons k rest)
  show ?case
  proof (cases "fetchFails e k")
    case True
    then show ?thesis
      by (auto simp add: fetchFails_def fetchCause_def split: getObjectResult.splits)
  next
    case False
    then obtain fileData where fd: "getObject e k = BodyBytes fileData" "length fileData \<noteq> 0"
      by (auto simp add: fetchFails_def split: getObjectResult.splits)
    have "fetched e k = \<lparr>key = k, data = fileData, checksum = calculateChecksum e fileData\<rparr>"
      by (simp add: fetched_def fd)
    then show ?thesis using False fd by (simp add: Let_def Cons.IH split: option.split)
  qed
qed

lemma phase3_runs:
  assumes "jobs w jid = Some a" and "phase3 e jid keys buf w = (r, w')"
  shows "\<exists>k url. 2 \<le> k \<and> k \<le> 3 \<and> runs jid (drop 2 (take k checkpoints) @ finish r url) w w'
           \<and> (r = None \<longrightarrow> k = 3) \<and> (k < 3 \<longrightarrow> downloads w' = downloads w)"
proof (cases "putObject e (finalKey jid)")
  case (Some t)
  then have "r = Some t" "jobs w' = jobs w" "observed w' = observed w" "downloads w' = downloads w"
    using assms(2) by (auto simp add: phase3_def Let_def)
  then show ?thesis using runs_same [OF assms(1), of w']
    by (intro exI [of _ 2] exI [of _ "[]"]) (simp add: finish_def)
next
  case None
  define w2 where "w2 = w\<lparr>dateCalls := dateCalls w + 1,
      downloads := (downloads w)(finalKey jid \<mapsto>
         \<lparr> Body = buf, ContentType = ''application/zip'', metaJobId = jid,
           metaFileCount = length keys, metaCreatedAt = now e (dateCalls w) \<rparr>)\<rparr>"
  define w4 where "w4 = updateJobCaught e jid
      ((noUpdates (now e (dateCalls w2)))\<lparr>upd_progress := Some 75\<rparr>)
      (snd (mutateJob e jid (setProgress 75) w2))"
  have j2: "jobs w2 jid = Some a" by (simp add: w2_def assms(1))
  have r0: "runs jid [] w w2" using runs_same [OF assms(1), of w2] by (simp add: w2_def)
  have r1: "runs jid [setProgress 75] w2 w4"
    unfolding w4_def using j2 by (rule runs_mutate_update(1))
  have r01: "runs jid [setProgress 75] w w4" using runs_trans [OF r0 r1] by simp
  then obtain b where b: "jobs w4 jid = Some b" using runs_present by blast
  have p4: "phase4 e jid w4 = (r, w')"
    using assms(2) None by (simp add: phase3_def Let_def w2_def w4_def)
  from phase4_runs [OF b p4] obtain url where d: "downloads w' = downloads w4"
    and c: "runs jid (finish r url) w4 w'"
    by blast
  have "runs jid ([setProgress 75] @ finish r url) w w'" using runs_trans [OF r01 c] .
  then show ?thesis by (intro exI [of _ 3] exI [of _ url]) simp
qed

lemma phase2_runs:
  assumes "jobs w jid = Some a" and "phase2 e jid keys temps w = (r, w')"
  shows "\<exists>k url. k \<le> 3 \<and> runs jid (take k checkpoints @ finish r url) w w'
           \<and> (r = None \<longrightarrow> k = 3) \<and> (k < 3 \<longrightarrow> downloads w' = downloads w)"
proof (cases "verifyIntegrity e temps")
  case (Some t)
  then have "r = Some t" "w' = w" using assms(2) by (auto simp add: phase2_def)
  then show ?thesis using runs_refl [OF assms(1)]
    by (intro exI [of _ 0] exI [of _ "[]"]) (simp add: finish_def)
next
  case None
  define w2 where "w2 = snd (updateJob e jid
      ((noUpdates (now e (dateCalls w)))\<lparr>upd_progress := Some 30\<rparr>)
      (snd (mutateJob e jid (setProgress 30) w)))"
  have r1: "runs jid [setProgress 30] w w2"
    unfolding w2_def using assms(1) by (rule runs_mutate_update(2))
  have d2: "downloads w2 = downloads w" by (simp add: w2_def)
  obtain b where b: "jobs w2 jid = Some b" using r1 runs_present by blast
  show ?thesis
  proof (cases "dbThrows e (dbCalls w) = None \<and> (\<exists>buf. archiver e (map (\<lambda>file. (key file, data file)) temps) = Inr buf)")
    case False
    then have "(\<exists>t. r = Some t) \<and> w' = w2"
      using assms(2) None
      by (auto simp add: phase2_def Let_def w2_def split: prod.splits option.splits sum.splits
               dest: arg_cong [where f = fst] arg_cong [where f = snd])
    then show ?thesis using r1 d2 by (intro exI [of _ 1] exI [of _ "[]"]) (auto simp add: finish_def)
  next
    case True
    then obtain buf where buf: "archiver e (map (\<lambda>file. (key file, data file)) temps) = Inr buf"
      and ok1: "dbThrows e (dbCalls w) = None" by blast
    define w4 where "w4 = snd (updateJob e jid
        ((noUpdates (now e (dateCalls w2)))\<lparr>upd_progress := Some 50\<rparr>)
        (snd (mutateJob e jid (setProgress 50) w2)))"
    have r2: "runs jid [setProgress 50] w2 w4"
      unfolding w4_def using b by (rule runs_mutate_update(2))
    have r12: "runs jid [setProgress 30, setProgress 50] w w4"
      using runs_trans [OF r1 r2] by simp
    have d4: "downloads w4 = downloads w" by (simp add: w4_def d2)
    obtain c where c: "jobs w4 jid = Some c" using r2 runs_present by blast
    have u1: "updateJob e jid ((noUpdates (now e (dateCalls w)))\<lparr>upd_progress := Some 30\<rparr>)
                 (snd (mutateJob e jid (setProgress 30) w)) = (None, w2)"
      using ok1 by (simp add: w2_def prod_eq_iff)
    show ?thesis
    proof (cases "dbThrows e (dbCalls w2)")
      case (Some t)
      then have "updateJob e jid ((noUpdates (now e (dateCalls w2)))\<lparr>upd_progress := Some 50\<rparr>)
                 (snd (mutateJob e jid (setProgress 50) w2)) = (Some t, w4)"
        by (simp add: w4_def prod_eq_iff)
      then have "r = Some t \<and> w' = w4"
        using assms(2) None u1 buf by (simp add: phase2_def Let_def)
      then show ?thesis using r12 d4 by (intro exI [of _ 2] exI [of _ "[]"]) (simp add: finish_def)
    next
      case None': None
      then have "updateJob e jid ((noUpdates (now e (dateCalls w2)))\<lparr>upd_progress := Some 50\<rparr>)
                 (snd (mutateJob e jid (setProgress 50) w2)) = (None, w4)"
        by (simp add: w4_def prod_eq_iff)
      then have p3: "phase3 e jid keys buf w4 = (r, w')"
        using assms(2) None u1 buf by (simp add: phase2_def Let_def)
      from phase3_runs [OF c p3] obtain k url where k: "2 \<le> k" "k \<le> 3"
        "runs jid (drop 2 (take k checkpoints) @ finish r url) w4 w'"
        "r = None \<longrightarrow> k = 3" "k < 3 \<longrightarrow> downloads w' = downloads w4"
        by blast
      have "k = 2 \<or> k = 3" using k(1,2) by linarith
      then have "runs jid (take k checkpoints @ finish r url) w w'"
        using runs_trans [OF r12 k(3)] by auto
      then show ?thesis using k d4 by (intro exI [of _ k] exI [of _ url]) simp
    qed
  qed
qed

lemma tryBody_runs:
  assumes "jobs w jid = Some a" and "tryBody e jid keys w = (r, w')"
  shows "\<exists>m k url. m \<le> length keys \<and> k \<le> 3 \<and> (0 < k \<longrightarrow> m = length keys)
           \<and> runs jid (map (collectUpd (length keys)) [0..<m] @ take k checkpoints @ finish r url) w w'
           \<and> (r = None \<longrightarrow> k = 3) \<and> (k < 3 \<longrightarrow> downloads w' = downloads w)
           \<and> (\<forall>bad. find (fetchFails e) keys = Some bad \<longrightarrow>
                  r = Some (collectError bad (fetchCause e bad)) \<and> k = 0)"
proof -
  obtain c w1 where c: "collectFiles e jid (length keys) 0 keys [] w = (c, w1)"
    by (cases "collectFiles e jid (length keys) 0 keys [] w")
  from collectFiles_runs [OF assms(1) c] obtain m where m: "downloads w1 = downloads w"
    "m \<le> length keys" "runs jid (map (collectUpd (length keys)) [0..<0 + m]) w w1"
    "(case c of Inr temps' \<Rightarrow> m = length keys | Inl t \<Rightarrow> m < length keys)"
    by blast
  have res: "c = (case find (fetchFails e) keys of
                    Some bad \<Rightarrow> Inl (collectError bad (fetchCause e bad))
                  | None \<Rightarrow> Inr ([] @ map (fetched e) keys))"
    using collectFiles_result [of e jid "length keys" 0 keys "[]" w] c by simp
  show ?thesis
  proof (cases c)
    case (Inl t)
    then have "r = Some t" "w' = w1" using assms(2) c by (simp_all add: tryBody_def)
    moreover have "\<forall>bad. find (fetchFails e) keys = Some bad \<longrightarrow>
                     t = collectError bad (fetchCause e bad)"
      using res Inl by auto
    ultimately show ?thesis using m
      by (intro exI [of _ m] exI [of _ 0] exI [of _ "[]"]) (simp add: finish_def)
  next
    case (Inr temps)
    then have p2: "phase2 e jid keys temps w1 = (r, w')"
      using assms(2) c by (simp add: tryBody_def)
    obtain b where b: "jobs w1 jid = Some b" using m(3) runs_present by blast
    from phase2_runs [OF b p2] obtain k url where k: "k \<le> 3"
      "runs jid (take k checkpoints @ finish r url) w1 w'"
      "r = None \<longrightarrow> k = 3" "k < 3 \<longrightarrow> downloads w' = downloads w1"
      by (elim exE conjE) (rule that)
    have "m = length keys" using m(4) Inr by simp
    moreover have "find (fetchFails e) keys = None"
      using res Inr by (cases "find (fetchFails e) keys") simp_all
    ultimately show ?thesis using runs_trans [OF m(3) k(2)] k m(1)
      by (intro exI [of _ m] exI [of _ k] exI [of _ url]) simp
  qed
qed

lemma failJob_runs:
  assumes "jobs w jid = Some a"
  shows "runs jid [setFailed (errorMessage t)] w (failJob e jid t w)"
    and "downloads (failJob e jid t w) = downloads w"
  using runs_mutate_update(1) [OF assms] by (simp_all add: failJob_def Let_def)

lemma processDownloadJob_runs:
  assumes "jobs w jid = Some a" and "processDownloadJob e jid keys w = (r, w')"
  shows "\<exists>m k url. m \<le> length keys \<and> k \<le> 3 \<and> (0 < k \<longrightarrow> m = length keys)
           \<and> runs jid (script (length keys) m k r url) w w'
           \<and> (r = None \<longrightarrow> k = 3 \<and> m = length keys) \<and> (k < 3 \<longrightarrow> downloads w' = downloads w)
           \<and> (\<forall>bad. find (fetchFails e) keys = Some bad \<longrightarrow>
                  r = Some (collectError bad (fetchCause e bad)) \<and> k = 0)"
proof -
  define w2 where "w2 = updateJobCaught e jid
      ((noUpdates (now e (dateCalls w)))\<lparr>upd_status := Some Processing\<rparr>)
      (snd (mutateJob e jid setProcessing w))"
  have r1: "runs jid [setProcessing] w w2"
    unfolding w2_def using assms(1) by (rule runs_mutate_update(1))
  have d2: "downloads w2 = downloads w" by (simp add: w2_def)
  obtain b where b: "jobs w2 jid = Some b" using r1 runs_present by blast
  obtain r3 w3 where t: "tryBody e jid keys w2 = (r3, w3)" by (cases "tryBody e jid keys w2")
  have pd: "processDownloadJob e jid keys w =
        (case tryBody e jid keys w2 of (None, w3) \<Rightarrow> (None, w3)
              | (Some t, w3) \<Rightarrow> (Some t, failJob e jid t w3))"
    using assms(1) by (simp add: processDownloadJob_def Let_def w2_def)
  from tryBody_runs [OF b t] obtain m k url where mk: "m \<le> length keys" "k \<le> 3"
    "0 < k \<longrightarrow> m = length keys"
    "runs jid (map (collectUpd (length keys)) [0..<m] @ take k checkpoints @ finish r3 url) w2 w3"
    "r3 = None \<longrightarrow> k = 3" "k < 3 \<longrightarrow> downloads w3 = downloads w2"
    "\<forall>bad. find (fetchFails e) keys = Some bad \<longrightarrow>
       r3 = Some (collectError bad (fetchCause e bad)) \<and> k = 0"
    by (elim exE conjE) (rule that)
  obtain c where c: "jobs w3 jid = Some c" using mk(4) runs_present by blast
  have r13: "runs jid (setProcessing # map (collectUpd (length keys)) [0..<m]
               @ take k checkpoints @ finish r3 url) w w3"
    using runs_trans [OF r1 mk(4)] by simp
  show ?thesis
  proof (cases r3)
    case None
    then have rw: "r = None" "w' = w3"
      using assms(2) t unfolding pd by simp_all
    have s: "script (length keys) m k r url
             = setProcessing # map (collectUpd (length keys)) [0..<m]
                 @ take k checkpoints @ finish r3 url"
      by (simp add: script_def finish_def rw None)
    have k3: "k = 3" using mk(5) None by simp
    have "runs jid (script (length keys) m k r url) w w3" using r13 by (simp only: s)
    then have "runs jid (script (length keys) m k r url) w w'" by (simp only: rw(2))
    moreover have "m = length keys" using mk(3) k3 by simp
    moreover have "\<forall>bad. find (fetchFails e) keys \<noteq> Some bad" using mk(7) None by auto
    ultimately show ?thesis using k3
      by (intro exI [of _ m] exI [of _ k] exI [of _ url]) simp
  next
    case (Some t')
    then have rw: "r = Some t'" "w' = failJob e jid t' w3"
      using assms(2) t unfolding pd by simp_all
    have s: "script (length keys) m k r url
             = (setProcessing # map (collectUpd (length keys)) [0..<m]
                 @ take k checkpoints @ finish r3 url) @ [setFailed (errorMessage t')]"
      by (simp add: script_def finish_def rw Some)
    have "runs jid ((setProcessing # map (collectUpd (length keys)) [0..<m]
                 @ take k checkpoints @ finish r3 url) @ [setFailed (errorMessage t')])
            w (failJob e jid t' w3)"
      using r13 failJob_runs(1) [OF c] by (rule runs_trans)
    then have "runs jid (script (length keys) m k r url) w w'" by (simp only: s rw(2))
    moreover have "downloads w' = downloads w3" unfolding rw(2) using c by (rule failJob_runs(2))
    moreover have "\<forall>bad. find (fetchFails e) keys = Some bad \<longrightarrow>
                     r = Some (collectError bad (fetchCause e bad)) \<and> k = 0"
      using mk(7) Some rw(1) by simp
    ultimately show ?thesis using mk(1,2,3,6) d2 rw(1)
      by (intro exI [of _ m] exI [of _ k] exI [of _ url]) simp
  qed
qed

lemma createJob_simps [simp]:
  "jobs (createJob e uuid v w) = (jobs w)(uuid \<mapsto> queuedJob e uuid v w)"
  "observed (createJob e uuid v w) = observed w @ [queuedJob e uuid v w]"
  "downloads (createJob e uuid v w) = downloads w"
  "db (createJob e uuid v w) = db w"
  "dbCalls (createJob e uuid v w) = dbCalls w"
  by (simp_all add: createJob_def queuedJob_def Let_def)

lemma validateKeys_filter: "validateKeys e ks = filter (headObject e) ks"
  by (induction ks) simp_all

lemma initiate_rejects:
  assumes "validateKeys e ks = []"
  shows "initiate e uuid ks w =
           (BadRequest400 ''Validation Error'' ''No valid file keys found in source bucket'', w)"
  using assms by (simp add: initiate_def)

lemma initiate_runs:
  assumes "validateKeys e ks \<noteq> []"
  shows "\<exists>m k url r js. m \<le> length (validateKeys e ks) \<and> k \<le> 3
           \<and> (0 < k \<longrightarrow> m = length (validateKeys e ks))
           \<and> (r = None \<longrightarrow> k = 3 \<and> m = length (validateKeys e ks))
           \<and> r = fst (processDownloadJob e uuid (validateKeys e ks)
                        (createJob e uuid (validateKeys e ks) w))
           \<and> follows (queuedJob e uuid (validateKeys e ks) w)
                (script (length (validateKeys e ks)) m k r url @ caught r) js
           \<and> observed (snd (initiate e uuid ks w))
               = observed w @ queuedJob e uuid (validateKeys e ks) w # js
           \<and> jobs (snd (initiate e uuid ks w)) uuid
               = Some (last (queuedJob e uuid (validateKeys e ks) w # js))
           \<and> (k < 3 \<longrightarrow> downloads (snd (initiate e uuid ks w)) = downloads w)
           \<and> (\<forall>bad. find (fetchFails e) (validateKeys e ks) = Some bad \<longrightarrow>
                  r = Some (collectError bad (fetchCause e bad)) \<and> k = 0)"
proof -
  define v where "v = validateKeys e ks"
  define a where "a = queuedJob e uuid v w"
  define w1 where "w1 = createJob e uuid v w"
  have j1: "jobs w1 uuid = Some a" by (simp add: w1_def a_def)
  obtain r w2 where p: "processDownloadJob e uuid v w1 = (r, w2)"
    by (cases "processDownloadJob e uuid v w1")
  from processDownloadJob_runs [OF j1 p] obtain m k url where mk: "m \<le> length v" "k \<le> 3"
    "0 < k \<longrightarrow> m = length v" "runs uuid (script (length v) m k r url) w1 w2"
    "r = None \<longrightarrow> k = 3 \<and> m = length v" "k < 3 \<longrightarrow> downloads w2 = downloads w1"
    "\<forall>bad. find (fetchFails e) v = Some bad \<longrightarrow>
       r = Some (collectError bad (fetchCause e bad)) \<and> k = 0"
    by (elim exE conjE) (rule that)
  obtain c where c: "jobs w2 uuid = Some c" using mk(4) runs_present by blast
  define w3 where "w3 = (case r of None \<Rightarrow> w2 | Some t \<Rightarrow> catchHandler e uuid t w2)"
  have i: "snd (initiate e uuid ks w) = w3"
    using assms p by (cases r) (simp_all add: initiate_def Let_def v_def w1_def w3_def)
  have "runs uuid (caught r) w2 w3 \<and> downloads w3 = downloads w2"
    using runs_refl [OF c] failJob_runs [OF c] c
    by (cases r) (simp_all add: w3_def caught_def catchHandler_def)
  then have r3: "runs uuid (script (length v) m k r url @ caught r) w1 w3"
    and d3: "downloads w3 = downloads w2"
    using runs_trans [OF mk(4)] by simp_all
  from r3 j1 obtain js where js: "follows a (script (length v) m k r url @ caught r) js"
    "observed w3 = observed w1 @ js" "jobs w3 uuid = Some (last (a # js))"
    unfolding runs_def by auto
  have "observed w3 = observed w @ a # js" using js(2) by (simp add: w1_def a_def)
  moreover have "k < 3 \<longrightarrow> downloads w3 = downloads w" using mk(6) d3 by (simp add: w1_def)
  moreover have "r = fst (processDownloadJob e uuid v w1)" using p by simp
  ultimately show ?thesis
    using mk js unfolding i v_def [symmetric] a_def [symmetric] w1_def [symmetric]
    by (intro exI [of _ m] exI [of _ k] exI [of _ url] exI [of _ r] exI [of _ js]) simp
qed

lemma scan_untimed:
  assumes "list_all timeless fs"
  shows "map untimed (scan (a\<lparr>updatedAt := t\<rparr>) fs) = map untimed (scan a fs)"
  using assms
proof (induction fs arbitrary: a)
  case Nil
  then show ?case by simp
next
  case (Cons f fs)
  then have f: "f (a\<lparr>updatedAt := t\<rparr>) = (f a)\<lparr>updatedAt := t\<rparr>" by (simp add: timeless_def)
  show ?case using Cons by (simp add: f untimed_def)
qed

lemma follows_scan:
  assumes "list_all timeless fs" and "follows a fs js"
  shows "map untimed js = map untimed (scan a fs)"
  using assms
proof (induction fs arbitrary: a js)
  case Nil
  then show ?case by simp
next
  case (Cons f fs)
  then obtain b bs where js: "js = b # bs" by (cases js) auto
  then obtain t where b: "b = (f a)\<lparr>updatedAt := t\<rparr>" and bs: "follows b fs bs"
    using Cons.prems(2) by (auto simp add: touched_def)
  have "map untimed bs = map untimed (scan b fs)" using Cons.IH [OF _ bs] Cons.prems(1) by simp
  also have "\<dots> = map untimed (scan (f a) fs)"
    unfolding b using Cons.prems(1) by (intro scan_untimed) simp
  finally have "map untimed bs = map untimed (scan (f a) fs)" .
  moreover have "untimed b = untimed (f a)" by (simp add: b untimed_def)
  ultimately show ?case by (simp add: js)
qed

lemma scan_append: "scan a (fs @ gs) = scan a fs @ scan (last (a # scan a fs)) gs"
  by (induction fs arbitrary: a) simp_all

lemma timeless_script [simp]: "list_all timeless (script n m k r url @ caught r)"
  by (auto simp add: script_def caught_def timeless_def list_all_iff split: option.splits
           dest!: in_set_takeD)

section \<open>Histories of a job\<close>

lemma last_scan_append:
  "last (a # scan a (fs @ gs)) = last (last (a # scan a fs) # scan (last (a # scan a fs)) gs)"
  by (simp add: scan_append)

lemma successively_append_last:
  "xs \<noteq> [] \<Longrightarrow> successively R xs \<Longrightarrow> successively R (last xs # ys)
     \<Longrightarrow> successively R (xs @ ys)"
  by (cases ys) (auto simp add: successively_append_iff successively_Cons)

lemma successively_scan_append:
  assumes "successively R (a # scan a fs)"
    and "successively R (last (a # scan a fs) # scan (last (a # scan a fs)) gs)"
  shows "successively R (a # scan a (fs @ gs))"
proof -
  have "successively R ((a # scan a fs) @ scan (last (a # scan a fs)) gs)"
    using assms by (intro successively_append_last) simp_all
  then show ?thesis by (simp add: scan_append)
qed

lemma steps_seq:
  assumes "steps R I fs M" and "steps R M gs J"
  shows "steps R I (fs @ gs) J"
  unfolding steps_def
proof (intro allI impI)
  fix a assume a: "I a"
  define b where "b = last (a # scan a fs)"
  have 1: "successively R (a # scan a fs)" "M b"
    using assms(1) a by (simp_all add: steps_def b_def)
  have 2: "successively R (b # scan b gs)" "J (last (b # scan b gs))"
    using assms(2) 1(2) by (simp_all add: steps_def)
  show "successively R (a # scan a (fs @ gs)) \<and> J (last (a # scan a (fs @ gs)))"
    using successively_scan_append [OF 1(1)] 2 unfolding b_def [symmetric] last_scan_append
    by simp
qed

lemma steps_nil: "(\<And>a. I a \<Longrightarrow> J a) \<Longrightarrow> steps R I [] J"
  by (simp add: steps_def)

lemma steps_single: "(\<And>a. I a \<Longrightarrow> R a (f a) \<and> J (f a)) \<Longrightarrow> steps R I [f] J"
  by (simp add: steps_def)

lemma steps_post: "steps R I fs M \<Longrightarrow> (\<And>a. M a \<Longrightarrow> J a) \<Longrightarrow> steps R I fs J"
  by (simp add: steps_def)

lemma collect_step:
  assumes "q < n"
  shows "steps lifeStep (collecting n q) [collectUpd n q] (collecting n (Suc q))"
proof (rule steps_single)
  fix a assume a: "collecting n q a"
  have "progress a \<le> collectProgress q n"
  proof (cases "q = 0")
    case True
    then show ?thesis using a collectProgress_nonneg [of 0 n] by (simp add: collecting_def)
  next
    case False
    then have "progress a \<le> collectProgress (q - 1) n" using a by (simp add: collecting_def)
    then show ?thesis using collectProgress_mono [of "q - 1" q n] by simp
  qed
  then show "lifeStep a (collectUpd n q a) \<and> collecting n (Suc q) (collectUpd n q a)"
    using a assms
    by (simp add: lifeStep_def progressStep_def identityKept_def terminalKept_def outcomeOK_def collecting_def)
qed

lemma collect_steps:
  assumes "i + m \<le> n"
  shows "steps lifeStep (collecting n i) (map (collectUpd n) [i..<i + m]) (collecting n (i + m))"
  using assms
proof (induction m arbitrary: i)
  case 0
  then show ?case by (simp add: steps_nil)
next
  case (Suc m)
  have "[i..<i + Suc m] = [i] @ [Suc i..<Suc i + m]" by (simp add: upt_conv_Cons)
  then have "map (collectUpd n) [i..<i + Suc m]
             = [collectUpd n i] @ map (collectUpd n) [Suc i..<Suc i + m]"
    by simp
  moreover have "steps lifeStep (collecting n i)
      ([collectUpd n i] @ map (collectUpd n) [Suc i..<Suc i + m]) (collecting n (Suc i + m))"
    using Suc.prems by (intro steps_seq [OF collect_step Suc.IH]) simp_all
  ultimately show ?case by simp
qed

lemma collecting_working:
  assumes "collecting n m a" and "m \<le> n"
  shows "working n 25 a"
proof -
  have "progress a \<le> 25"
  proof (cases "m = 0")
    case True
    then show ?thesis using assms by (simp add: collecting_def)
  next
    case False
    then have "progress a \<le> collectProgress (m - 1) n" using assms by (simp add: collecting_def)
    moreover have "collectProgress (m - 1) n \<le> 25"
      using False assms(2) by (intro collectProgress_le_25) simp
    ultimately show ?thesis by simp
  qed
  then show ?thesis using assms by (simp add: collecting_def working_def)
qed

lemma checkpoint_step:
  assumes "c \<le> p"
  shows "steps lifeStep (working n c) [setProgress p] (working n p)"
  using assms
  by (intro steps_single)
     (simp add: lifeStep_def progressStep_def identityKept_def terminalKept_def outcomeOK_def working_def)

lemma checkpoints_steps:
  assumes "k \<le> 3"
  shows "steps lifeStep (working n 25) (take k checkpoints) (working n 75)"
proof -
  have w: "\<And>c a. c \<le> 75 \<Longrightarrow> working n c a \<Longrightarrow> working n 75 a"
    by (simp add: working_def)
  have s1: "steps lifeStep (working n 25) [setProgress 30] (working n 30)"
    by (rule checkpoint_step) simp
  have s2: "steps lifeStep (working n 30) [setProgress 50] (working n 50)"
    by (rule checkpoint_step) simp
  have s3: "steps lifeStep (working n 50) [setProgress 75] (working n 75)"
    by (rule checkpoint_step) simp
  have s12: "steps lifeStep (working n 25) [setProgress 30, setProgress 50] (working n 50)"
    using steps_seq [OF s1 s2] by simp
  have s123: "steps lifeStep (working n 25) checkpoints (working n 75)"
    using steps_seq [OF s12 s3] by simp
  consider "k = 0" | "k = 1" | "k = 2" | "k = 3" using assms by linarith
  then show ?thesis
  proof cases
    case 1
    then show ?thesis using w [of 25] by (simp add: steps_nil)
  next
    case 2
    then show ?thesis using steps_post [OF s1 w [of 30]] by simp
  next
    case 3
    then show ?thesis using steps_post [OF s12 w [of 50]] by (simp add: numeral_2_eq_2)
  next
    case 4
    then show ?thesis using s123 by (simp add: numeral_3_eq_3)
  qed
qed

lemma settle_steps:
  "steps lifeStep (working n 75)
     ((case r of None \<Rightarrow> [setDone url] | Some t \<Rightarrow> [setFailed (errorMessage t)]) @ caught r)
     (settled n r url)"
proof (cases r)
  case None
  then show ?thesis
    by (simp add: caught_def steps_def lifeStep_def progressStep_def identityKept_def terminalKept_def
          outcomeOK_def working_def settled_def)
next
  case (Some t)
  then show ?thesis
    by (simp add: caught_def steps_def lifeStep_def progressStep_def identityKept_def terminalKept_def
          outcomeOK_def working_def settled_def)
qed

lemma script_steps:
  assumes "m \<le> n" and "k \<le> 3"
  shows "steps lifeStep (created n) (script n m k r url @ caught r) (settled n r url)"
proof -
  have 1: "steps lifeStep (created n) [setProcessing] (collecting n 0)"
    by (rule steps_single)
       (simp add: created_def collecting_def lifeStep_def progressStep_def identityKept_def terminalKept_def
          outcomeOK_def)
  have c: "steps lifeStep (collecting n 0) (map (collectUpd n) [0..<0 + m]) (collecting n (0 + m))"
    using assms(1) by (intro collect_steps) simp
  have 2: "steps lifeStep (collecting n 0) (map (collectUpd n) [0..<0 + m]) (working n 25)"
  proof (rule steps_post [OF c])
    fix a assume "collecting n (0 + m) a"
    then show "working n 25 a" using assms(1) collecting_working [of n m a] by simp
  qed
  have 3: "steps lifeStep (working n 25) (take k checkpoints) (working n 75)"
    using assms(2) by (rule checkpoints_steps)
  have eq: "script n m k r url @ caught r =
          [setProcessing] @ map (collectUpd n) [0..<0 + m] @ take k checkpoints @
          ((case r of None \<Rightarrow> [setDone url] | Some t \<Rightarrow> [setFailed (errorMessage t)]) @ caught r)"
    by (simp add: script_def)
  show ?thesis
    unfolding eq by (rule steps_seq [OF 1 steps_seq [OF 2 steps_seq [OF 3 settle_steps]]])
qed

lemma untimed_simps [simp]:
  "lifeStep (untimed x) (untimed y) = lifeStep x y"
  "settled n r url (untimed x) = settled n r url x"
  by (simp_all add: untimed_def lifeStep_def progressStep_def identityKept_def terminalKept_def outcomeOK_def
        settled_def split: statusValue.splits option.splits)

lemma follows_steps:
  assumes "list_all timeless fs" and "follows a fs js" and "steps R I fs J" and "I a"
    and R: "\<And>x y. R (untimed x) (untimed y) = R x y" and J: "\<And>x. J (untimed x) = J x"
  shows "successively R (a # js) \<and> J (last (a # js))"
proof -
  have eq: "map untimed (a # js) = map untimed (a # scan a fs)"
    using follows_scan [OF assms(1,2)] by simp
  have s: "successively R (a # scan a fs)" "J (last (a # scan a fs))"
    using assms(3,4) by (simp_all add: steps_def)
  have m: "\<And>xs. successively R (map untimed xs) = successively R xs"
    by (simp add: successively_map R)
  have "successively R (a # js)" using s(1) m [of "a # js"] m [of "a # scan a fs"] eq by simp
  moreover have "untimed (last (a # js)) = untimed (last (a # scan a fs))"
    using arg_cong [OF eq, of last] by (simp only: last_map list.distinct not_False_eq_True)
  then have "J (last (a # js))" using s(2) J [of "last (a # js)"] J [of "last (a # scan a fs)"] by simp
  ultimately show ?thesis by simp
qed

lemma history_initiate_rejected:
  assumes "validateKeys e ks = []"
  shows "history w (snd (initiate e uuid ks w)) = []"
  using assms by (simp add: initiate_def history_def)

lemma initiate_life:
  assumes "validateKeys e ks \<noteq> []"
  shows "\<exists>url js. history w (snd (initiate e uuid ks w))
                    = queuedJob e uuid (validateKeys e ks) w # js
           \<and> successively lifeStep (queuedJob e uuid (validateKeys e ks) w # js)
           \<and> settled (length (validateKeys e ks))
                (fst (processDownloadJob e uuid (validateKeys e ks)
                        (createJob e uuid (validateKeys e ks) w))) url
                (last (queuedJob e uuid (validateKeys e ks) w # js))
           \<and> jobs (snd (initiate e uuid ks w)) uuid
               = Some (last (queuedJob e uuid (validateKeys e ks) w # js))"
proof -
  define v where "v = validateKeys e ks"
  define a where "a = queuedJob e uuid v w"
  from initiate_runs [OF assms, where uuid = uuid and w = w] obtain m k url r js where
    mk: "m \<le> length v" "k \<le> 3"
    and r: "r = fst (processDownloadJob e uuid v (createJob e uuid v w))"
    and f: "follows a (script (length v) m k r url @ caught r) js"
    and ob: "observed (snd (initiate e uuid ks w)) = observed w @ a # js"
    and jb: "jobs (snd (initiate e uuid ks w)) uuid = Some (last (a # js))"
    unfolding v_def [symmetric] a_def [symmetric] by (elim exE conjE) (rule that)
  have c: "created (length v) a" by (simp add: a_def queuedJob_def created_def)
  have "successively lifeStep (a # js) \<and> settled (length v) r url (last (a # js))"
    using timeless_script f script_steps [OF mk] c
    by (rule follows_steps) simp_all
  moreover have "history w (snd (initiate e uuid ks w)) = a # js"
    by (simp add: history_def ob)
  ultimately show ?thesis
    using jb unfolding r v_def a_def by (intro exI [of _ url] exI [of _ js]) simp
qed

lemma successively_list_all:
  assumes "successively R (a # js)" and "P a" and "\<And>x y. P x \<Longrightarrow> R x y \<Longrightarrow> P y"
  shows "list_all P (a # js)"
  using assms(1,2)
proof (induction js arbitrary: a)
  case Nil
  then show ?case by simp
next
  case (Cons b js)
  then have "successively R (b # js)" "P b" using assms(3) by auto
  then show ?case using Cons.IH [of b] Cons.prems(2) by simp
qed

section \<open>Successful runs\<close>

lemma verifyIntegrity_fetched: "verifyIntegrity e (map (fetched e) ks) = None"
  by (induction ks) (simp_all add: fetched_def Let_def)

lemma fst_phase4:
  "fst (phase4 e jid w) = (case getSignedUrl e (finalKey jid) of Inl t \<Rightarrow> Some t | Inr url \<Rightarrow> None)"
  by (simp add: phase4_def Let_def split: sum.split)

lemma fst_phase3:
  "fst (phase3 e jid keys buf w) =
     (case putObject e (finalKey jid) of Some t \<Rightarrow> Some t | None \<Rightarrow>
        (case getSignedUrl e (finalKey jid) of Inl t \<Rightarrow> Some t | Inr url \<Rightarrow> None))"
  by (simp add: phase3_def Let_def fst_phase4 split: option.split)

lemma fst_phase2:
  assumes "\<And>c. dbThrows e c = None" and "verifyIntegrity e temps = None"
  shows "fst (phase2 e jid keys temps w) =
     (case archiver e (map (\<lambda>file. (key file, data file)) temps) of
        Inl t \<Rightarrow> Some t
      | Inr buf \<Rightarrow>
        (case putObject e (finalKey jid) of Some t \<Rightarrow> Some t | None \<Rightarrow>
          (case getSignedUrl e (finalKey jid) of Inl t \<Rightarrow> Some t | Inr url \<Rightarrow> None)))"
  using assms
  by (simp add: phase2_def Let_def split_beta fst_phase3 split: sum.split)

lemma run_succeeds:
  assumes "\<And>c. dbThrows e c = None" and "storesSucceed e jid keys" and "jobs w jid = Some a"
  shows "fst (processDownloadJob e jid keys w) = None"
proof -
  define w2 where "w2 = updateJobCaught e jid
      ((noUpdates (now e (dateCalls w)))\<lparr>upd_status := Some Processing\<rparr>)
      (snd (mutateJob e jid setProcessing w))"
  obtain c w1 where c: "collectFiles e jid (length keys) 0 keys [] w2 = (c, w1)"
    by (cases "collectFiles e jid (length keys) 0 keys [] w2")
  have "c = Inr (map (fetched e) keys)"
    using collectFiles_result [of e jid "length keys" 0 keys "[]" w2] c assms(2)
    by (simp add: storesSucceed_def)
  then have t: "tryBody e jid keys w2 = phase2 e jid keys (map (fetched e) keys) w1"
    using c by (simp add: tryBody_def)
  have "fst (phase2 e jid keys (map (fetched e) keys) w1) = None"
    using assms(2) fst_phase2 [OF assms(1) verifyIntegrity_fetched, of jid keys keys w1]
    by (simp add: storesSucceed_def split: sum.splits)
  then have "fst (tryBody e jid keys w2) = None" using t by simp
  then show ?thesis
    using assms(3)
    by (simp add: processDownloadJob_def Let_def w2_def split_beta split: option.split)
qed

lemma follows_map:
  assumes "list_all timeless fs" and "follows a fs js" and g: "\<And>x. g (untimed x) = g x"
  shows "map g js = map g (scan a fs)"
proof -
  have "map g (map untimed js) = map g (map untimed (scan a fs))"
    using follows_scan [OF assms(1,2)] by simp
  then show ?thesis by (simp add: comp_def g)
qed

lemma scan_collect:
  "scan a (map (collectUpd n) [i..<i + m]) = map (\<lambda>q. collectUpd n q a) [i..<i + m]"
proof (induction m arbitrary: i a)
  case 0
  then show ?case by simp
next
  case (Suc m)
  have "[i..<i + Suc m] = i # [Suc i..<Suc i + m]" by (simp add: upt_conv_Cons)
  then show ?case using Suc.IH [of "collectUpd n i a" "Suc i"] by simp
qed

lemma success_script_progress:
  "map progress (scan a (script n n 3 None url @ caught None)) = progress a # writtenSequence n"
  using scan_collect [of "setProcessing a" n 0 n]
  by (simp add: script_def caught_def writtenSequence_def scan_append comp_def)

lemma initiate_settled:
  assumes "validateKeys e ks \<noteq> []"
  shows "\<exists>url job. jobs (snd (initiate e uuid ks w)) uuid = Some job
           \<and> settled (length (validateKeys e ks))
                (fst (processDownloadJob e uuid (validateKeys e ks)
                        (createJob e uuid (validateKeys e ks) w))) url job"
  using initiate_life [OF assms, where uuid = uuid and w = w] by blast

lemma initiate_completed_iff:
  assumes "validateKeys e ks \<noteq> []"
  shows "map_option status (jobs (snd (initiate e uuid ks w)) uuid) = Some Completed
         \<longleftrightarrow> fst (processDownloadJob e uuid (validateKeys e ks)
                   (createJob e uuid (validateKeys e ks) w)) = None"
proof -
  define r where "r = fst (processDownloadJob e uuid (validateKeys e ks)
                   (createJob e uuid (validateKeys e ks) w))"
  from initiate_settled [OF assms, of uuid w] obtain url job where
    j: "jobs (snd (initiate e uuid ks w)) uuid = Some job"
    and s: "settled (length (validateKeys e ks)) r url job"
    unfolding r_def by blast
  have "status job = Completed \<longleftrightarrow> r = None"
    using s by (cases r) (simp_all add: settled_def)
  then show ?thesis unfolding r_def [symmetric] by (simp add: j)
qed

lemma initiate_completes:
  assumes "\<And>c. dbThrows e c = None" and "validateKeys e ks = v" and "v \<noteq> []"
    and "storesSucceed e uuid v"
  shows "map_option status (jobs (snd (initiate e uuid ks w)) uuid) = Some Completed"
proof -
  have ne: "validateKeys e ks \<noteq> []" using assms(2,3) by simp
  have "fst (processDownloadJob e uuid v (createJob e uuid v w)) = None"
    using assms(1,4) by (rule run_succeeds) (simp add: createJob_simps)
  then show ?thesis unfolding initiate_completed_iff [OF ne] assms(2) .
qed

lemma initiate_success_history:
  assumes "validateKeys e ks \<noteq> []"
    and "map_option status (jobs (snd (initiate e uuid ks w)) uuid) = Some Completed"
  shows "map progress (history w (snd (initiate e uuid ks w)))
           = 0 # 0 # writtenSequence (length (validateKeys e ks))"
    and "\<exists>url. map_option downloadUrl (jobs (snd (initiate e uuid ks w)) uuid) = Some (Some url)"
proof -
  define v where "v = validateKeys e ks"
  define a where "a = queuedJob e uuid v w"
  have r0: "fst (processDownloadJob e uuid v (createJob e uuid v w)) = None"
    using assms(2) initiate_completed_iff [OF assms(1), of uuid w] by (simp add: v_def)
  from initiate_runs [OF assms(1), where uuid = uuid and w = w] obtain m k url r js where
    mk: "r = None \<longrightarrow> k = 3 \<and> m = length v"
    and r: "r = fst (processDownloadJob e uuid v (createJob e uuid v w))"
    and f: "follows a (script (length v) m k r url @ caught r) js"
    and ob: "observed (snd (initiate e uuid ks w)) = observed w @ a # js"
    unfolding v_def [symmetric] a_def [symmetric] by (elim exE conjE) (rule that)
  have f': "follows a (script (length v) (length v) 3 None url @ caught None) js"
    using f mk r r0 by simp
  have "map progress js = map progress (scan a (script (length v) (length v) 3 None url @ caught None))"
    using timeless_script f' by (rule follows_map) (simp add: untimed_def)
  then have "map progress (a # js) = 0 # 0 # writtenSequence (length v)"
    by (simp add: success_script_progress a_def queuedJob_def)
  then show "map progress (history w (snd (initiate e uuid ks w)))
           = 0 # 0 # writtenSequence (length (validateKeys e ks))"
    by (simp add: history_def ob v_def)
  show "\<exists>url. map_option downloadUrl (jobs (snd (initiate e uuid ks w)) uuid) = Some (Some url)"
    using initiate_settled [OF assms(1), of uuid w] r0
    by (auto simp add: settled_def v_def)
qed

lemma storeEnv_never_throws: "dbThrows storeEnv c = None"
  by (simp add: storeEnv_def)

section \<open>Failed collection\<close>

lemma completed_stays:
  assumes "successively terminalKept (a # js)" and "x \<in> set (a # js)" and "status x = Completed"
  shows "status (last (a # js)) = Completed"
  using assms
proof (induction js arbitrary: a x)
  case Nil
  then show ?case by simp
next
  case (Cons b js)
  have l: "last (a # b # js) = last (b # js)" by simp
  have s: "successively terminalKept (b # js)" "terminalKept a b" using Cons.prems(1) by simp_all
  have "x \<in> set (b # js) \<and> status x = Completed \<or> status b = Completed"
  proof (cases "x = a")
    case True
    then show ?thesis using s(2) Cons.prems(3) by (simp add: terminalKept_def)
  next
    case False
    then show ?thesis using Cons.prems(2,3) by simp
  qed
  then have "status (last (b # js)) = Completed"
    using Cons.IH [OF s(1), of x] Cons.IH [OF s(1), of b] by auto
  then show ?case unfolding l .
qed

lemma initiate_collect_failure:
  assumes "find (fetchFails e) (validateKeys e ks) = Some first"
  shows "map_option status (jobs (snd (initiate e uuid ks w)) uuid) = Some Failed"
    and "map_option error (jobs (snd (initiate e uuid ks w)) uuid)
           = Some (Some (''Failed to collect file '' @ first @ '': ''
                          @ errorMessage (fetchCause e first)))"
    and "list_all (\<lambda>job. downloadUrl job = None) (history w (snd (initiate e uuid ks w)))"
    and "downloads (snd (initiate e uuid ks w)) = downloads w"
proof -
  define v where "v = validateKeys e ks"
  define a where "a = queuedJob e uuid v w"
  define t where "t = collectError first (fetchCause e first)"
  have ne: "validateKeys e ks \<noteq> []" using assms by auto
  from initiate_runs [OF ne, where uuid = uuid and w = w] obtain m and k :: nat and url r js where
    r: "r = fst (processDownloadJob e uuid v (createJob e uuid v w))"
    and d: "k < 3 \<longrightarrow> downloads (snd (initiate e uuid ks w)) = downloads w"
    and b: "\<forall>bad. find (fetchFails e) v = Some bad \<longrightarrow>
              r = Some (collectError bad (fetchCause e bad)) \<and> k = 0"
    unfolding v_def [symmetric] by (elim exE conjE) (rule that)
  have rk: "r = Some t" "k = 0" using b assms by (simp_all add: v_def t_def)
  show "downloads (snd (initiate e uuid ks w)) = downloads w" using d rk by simp
  from initiate_life [OF ne, where uuid = uuid and w = w] obtain url' js' where
    h: "history w (snd (initiate e uuid ks w)) = a # js'"
    and s: "successively lifeStep (a # js')"
    and f: "settled (length v) r url' (last (a # js'))"
    and j: "jobs (snd (initiate e uuid ks w)) uuid = Some (last (a # js'))"
    unfolding v_def [symmetric] a_def [symmetric] r [symmetric] by (elim exE conjE) (rule that)
  have fin: "status (last (a # js')) = Failed" "error (last (a # js')) = Some (errorMessage t)"
    using f rk by (simp_all add: settled_def)
  show "map_option status (jobs (snd (initiate e uuid ks w)) uuid) = Some Failed"
    using fin by (simp add: j)
  show "map_option error (jobs (snd (initiate e uuid ks w)) uuid)
           = Some (Some (''Failed to collect file '' @ first @ '': ''
                          @ errorMessage (fetchCause e first)))"
    using fin by (simp add: j t_def collectError_def)
  have tk: "successively terminalKept (a # js')"
    using s by (rule successively_mono) (simp_all add: lifeStep_def)
  have ok: "list_all outcomeOK (a # js')"
    using s by (rule successively_list_all) (simp_all add: a_def queuedJob_def lifeStep_def outcomeOK_def)
  have "downloadUrl x = None" if x: "x \<in> set (a # js')" for x
  proof -
    have "status x \<noteq> Completed" using completed_stays [OF tk x] fin(1) by auto
    moreover have "outcomeOK x" using ok x by (auto simp add: list_all_iff)
    ultimately show ?thesis by (cases "status x") (simp_all add: outcomeOK_def)
  qed
  then show "list_all (\<lambda>job. downloadUrl job = None) (history w (snd (initiate e uuid ks w)))"
    unfolding h by (simp add: list_all_iff)
qed

section \<open>Integrity of the collected files\<close>

lemma verifyIntegrity_Some:
  assumes "verifyIntegrity e temps = Some t"
  shows "\<exists>file \<in> set temps. calculateChecksum e (data file) \<noteq> checksum file
           \<and> t = Error (''Integrity check failed for file '' @ key file)"
  using assms by (induction temps) (auto split: if_splits)

lemma collected_files:
  assumes "fst (collectFiles e jid n i ks [] w) = Inr temps"
  shows "temps = map (fetched e) ks"
  using assms collectFiles_result [of e jid n i ks "[]" w]
  by (cases "find (fetchFails e) ks") simp_all

section \<open>Rows of the durable store, runs of the interval callback\<close>

lemma rows_updateJobCaught [simp]: "dom (db (updateJobCaught e jid u w)) = dom (db w)"
  by (simp add: updateJobCaught_def)

lemma rows_collectFiles: "dom (db (snd (collectFiles e jid n i ks temps w))) = dom (db w)"
proof (induction ks arbitrary: i temps w)
  case Nil
  then show ?case by simp
next
  case (Cons k rest)
  then show ?case by (simp add: Let_def split: getObjectResult.split)
qed

lemma rows_phase4: "dom (db (snd (phase4 e jid w))) = dom (db w)"
  by (simp add: phase4_def Let_def split: sum.split)

lemma rows_phase3: "dom (db (snd (phase3 e jid keys buf w))) = dom (db w)"
  by (simp add: phase3_def Let_def rows_phase4 split: option.split)

lemma rows_phase2: "dom (db (snd (phase2 e jid keys temps w))) = dom (db w)"
  by (simp add: phase2_def Let_def split_beta rows_phase3 split: option.split sum.split)

lemma rows_failJob: "dom (db (failJob e jid t w)) = dom (db w)"
  by (simp add: failJob_def Let_def)

lemma rows_processDownloadJob: "dom (db (snd (processDownloadJob e jid keys w))) = dom (db w)"
  by (simp add: processDownloadJob_def tryBody_def Let_def split_beta rows_failJob rows_phase2
        rows_collectFiles split: option.split sum.split)

lemma pollTicks_unchanged:
  assumes "jobs w jid = Some job"
  shows "pollTicks k jid (Some \<lparr>lastProgress = progress job, lastStatus = status job\<rparr>) w = []"
  using assms by (induction k) (simp_all add: pollTick_def Let_def)

section \<open>The phases of a run\<close>


lemma putArchive_simps [simp]:
  "observed (putArchive e jid keys buf w) = observed w"
  "jobs (putArchive e jid keys buf w) = jobs w"
  "downloads (putArchive e jid keys buf w) =
     (downloads w)(finalKey jid \<mapsto>
        \<lparr> Body = buf, ContentType = ''application/zip'', metaJobId = jid,
          metaFileCount = length keys, metaCreatedAt = now e (dateCalls w) \<rparr>)"
  by (simp_all add: putArchive_def)






lemma verifyIntegrity_find:
  "verifyIntegrity e temps =
     (case find (mismatch e) temps of
        None \<Rightarrow> None
      | Some file \<Rightarrow> Some (Error (''Integrity check failed for file '' @ key file)))"
  by (induction temps) (simp_all add: mismatch_def)

lemma processDownloadJob_split:
  assumes "jobs w jid = Some job"
  shows "processDownloadJob e jid keys w =
           (case collectFiles e jid (length keys) 0 keys [] (startProcessing e jid w) of
              (Inl t, w1) \<Rightarrow> (Some t, failJob e jid t w1)
            | (Inr temps, w1) \<Rightarrow> afterCollect e jid keys temps w1)"
  using assms
  by (simp add: processDownloadJob_def tryBody_def afterCollect_def startProcessing_def Let_def
        split: prod.split sum.split option.split)

lemma collected_files_ok:
  assumes "collectFiles e jid n i ks [] w = (Inr temps, w1)"
  shows "list_all (\<lambda>file. \<not> mismatch e file) temps" and "verifyIntegrity e temps = None"
proof -
  have t: "temps = map (fetched e) ks" using assms by (intro collected_files [of e jid n i ks w]) simp
  show "list_all (\<lambda>file. \<not> mismatch e file) temps"
    unfolding t by (simp add: list_all_iff mismatch_def fetched_def Let_def)
  show "verifyIntegrity e temps = None" unfolding t by (rule verifyIntegrity_fetched)
qed

lemma afterCollect_mismatch:
  assumes "find (mismatch e) temps = Some first"
  shows "afterCollect e jid keys temps w =
           (Some (Error (''Integrity check failed for file '' @ key first)),
            failJob e jid (Error (''Integrity check failed for file '' @ key first)) w)"
  using assms by (simp add: afterCollect_def phase2_def verifyIntegrity_find)

lemma failJob_history:
  assumes "jobs w jid = Some job"
  shows "history w (failJob e jid t w)
           = [job\<lparr>status := Failed, error := Some (errorMessage t),
                  updatedAt := now e (dateCalls w)\<rparr>]"
  using assms by (simp add: history_def failJob_def Let_def mutateJob_jobs)






section \<open>Creation and the durable store\<close>

text \<open>
  Claim C1. Creation is stated to insert the new queued record into the cache and
  into the durable store, so that the durable store holds a row with the job id
  right after creation. The handler only calls \<open>jobs.set\<close>:
  \<open>dbOperations.insertJob\<close> is never called, and every later
  \<open>dbOperations.updateJob\<close> returns at once because the row is missing. For the
  accepted request \<open>[a.txt]\<close> on an empty table the cache holds the queued job,
  and the table has no row for it, neither after creation nor after the pipeline
  has completed.
\<close>

theorem initiate_creates_no_durable_row:
  "fst (initiate storeEnv ''job-1'' [''a.txt''] freshWorld) = Ok200 ''job-1'' Queued 1
   \<and> map_option status (jobs (createJob storeEnv ''job-1'' [''a.txt''] freshWorld) ''job-1'')
       = Some Queued
   \<and> db (createJob storeEnv ''job-1'' [''a.txt''] freshWorld) ''job-1'' = None
   \<and> db (snd (initiate storeEnv ''job-1'' [''a.txt''] freshWorld)) ''job-1'' = None"
  by code_simp

text \<open>For every store, request and world, the handler and the pipeline leave the set
  of rows of the table as it was.\<close>

lemma initiate_adds_no_row: "dom (db (snd (initiate e uuid ks w))) = dom (db w)"
  by (simp add: initiate_def Let_def catchHandler_def rows_failJob rows_processDownloadJob
        split: option.split)

section \<open>Durable write failures during the pipeline\<close>

text \<open>
  Claim C2. A durable write failure during a registry update is stated to be logged
  only, the job reaching the terminal state it would have reached otherwise. With
  one key the durable calls are numbered 0 (processing), 1 (collected file), 2
  (progress 30), 3 (progress 50), 4 (progress 75), 5 (completed). A failure of call
  1, which is inside its own \<open>try\<close>, leaves the job completed. A failure of call
  2, which is a plain call, fails the job with the driver's message, before
  anything is uploaded.
\<close>

theorem unguarded_durable_write_fails_job:
  "map_option status (jobs (snd (initiate storeEnv ''job-1'' [''a.txt''] freshWorld)) ''job-1'')
     = Some Completed
   \<and> map_option status (jobs (snd (initiate (busyAt 1) ''job-1'' [''a.txt''] freshWorld)) ''job-1'')
     = Some Completed
   \<and> map_option status (jobs (snd (initiate (busyAt 2) ''job-1'' [''a.txt''] freshWorld)) ''job-1'')
     = Some Failed
   \<and> map_option error (jobs (snd (initiate (busyAt 2) ''job-1'' [''a.txt''] freshWorld)) ''job-1'')
     = Some (Some ''SQLITE_BUSY: database is locked'')
   \<and> downloads (snd (initiate (busyAt 2) ''job-1'' [''a.txt''] freshWorld)) ''job-1.zip'' = None"
  by code_simp

text \<open>In general, what the driver throws at the write of progress 30 is thrown out of
  phase 2, whatever the stores do.\<close>

lemma unguarded_write_throws:
  assumes "verifyIntegrity e temps = None" and "dbThrows e (dbCalls w) = Some t"
  shows "fst (phase2 e jid keys temps w) = Some t"
  using assms by (simp add: phase2_def Let_def split_beta)

section \<open>The status endpoint and the durable store\<close>

text \<open>
  Claim C3. The status endpoint is stated to return the cached record, else to fetch
  the record from the durable store and fill the cache, and to signal not-found only
  when neither has the id. The endpoint reads the cache only. For a process started
  on a table that holds the row of \<open>job-9\<close>, it answers 404, while the subscribe
  endpoint, which does fall back to the durable store, finds the job.
\<close>

theorem status_endpoint_ignores_durable_store:
  "db restartedWorld ''job-9'' = Some storedRow
   \<and> statusEndpoint ''job-9'' restartedWorld = NotFound404
   \<and> fst (subscribeAttach storeEnv ''job-9'' restartedWorld)
       = Inr ([SSE ''progress'' (Snapshot ''job-9'' Completed 100 1 1 None None)],
              Some \<lparr>lastProgress = 100, lastStatus = Completed\<rparr>)"
  by code_simp

text \<open>In general, the answer is 404 exactly when the cache has no entry, whatever the
  table holds.\<close>

lemma statusEndpoint_reads_cache_only:
  "statusEndpoint jid w = NotFound404 \<longleftrightarrow> jobs w jid = None"
  by (simp add: statusEndpoint_def split: option.split)

section \<open>A subscriber that attaches after completion\<close>

text \<open>
  Claim C4. A subscriber that attaches to a completed job is stated to receive a
  \<open>complete\<close> event with the \<open>resultUrl\<close> the status endpoint returns. The
  stream callback writes one \<open>progress\<close> event without \<open>downloadUrl\<close>, stores the
  job's progress and status as the last ones sent, and the interval callback writes
  only on a change: for the completed job of the request \<open>[a.txt]\<close>, ten runs of
  the interval callback add nothing, while the status endpoint returns the URL.
\<close>

theorem late_subscriber_gets_no_complete_event:
  "statusEndpoint ''job-1'' (snd (initiate storeEnv ''job-1'' [''a.txt''] freshWorld))
     = StatusOk ''job-1'' Completed 100 1 1
         (Some ''http://localhost:9000/downloads/job-1.zip'') None 0 8
   \<and> subscribeEvents storeEnv 10 ''job-1''
         (snd (initiate storeEnv ''job-1'' [''a.txt''] freshWorld))
     = [SSE ''progress'' (Snapshot ''job-1'' Completed 100 1 1 None None)]"
  by code_simp

text \<open>In general, a subscriber that attaches to a job in the cache receives one
  \<open>progress\<close> event and nothing more for as long as the job stays as it is, which
  a completed or failed job does.\<close>

lemma subscribeEvents_settled:
  assumes "jobs w jid = Some job"
  shows "subscribeEvents e k jid w =
           [SSE ''progress'' (Snapshot (jobId job) (status job) (progress job)
              (filesCompleted job) (totalFiles job) None None)]"
  using assms pollTicks_unchanged [OF assms]
  by (simp add: subscribeEvents_def subscribeAttach_def)

section \<open>A key whose fetch fails\<close>

text \<open>
  Claim C5. When the fetch of some requested key fails or returns no bytes during
  collection, the job ends failed with an error message that names the key,
  \<open>downloadUrl\<close> stays unset, and nothing is written to the destination bucket.
  The keys are fetched in order and the loop stops at the first failure, so the
  fetch that fails during collection is the one of the first such key, \<open>first\<close>;
  the message is the one the inner \<open>catch\<close> builds from it. The keys of the job
  are the ones that passed the head check of the handler.
\<close>

theorem collect_failure_fails_job:
  assumes "bad \<in> set (validateKeys e ks)" and "fetchFails e bad"
  shows "\<exists>first \<in> set (validateKeys e ks).
           fetchFails e first
           \<and> find (fetchFails e) (validateKeys e ks) = Some first
           \<and> map_option status (jobs (snd (initiate e uuid ks w)) uuid) = Some Failed
           \<and> map_option error (jobs (snd (initiate e uuid ks w)) uuid)
               = Some (Some (''Failed to collect file '' @ first @ '': ''
                              @ errorMessage (fetchCause e first)))
           \<and> list_all (\<lambda>job. downloadUrl job = None) (history w (snd (initiate e uuid ks w)))
           \<and> downloads (snd (initiate e uuid ks w)) = downloads w"
proof -
  obtain first where f: "find (fetchFails e) (validateKeys e ks) = Some first"
    using assms by (cases "find (fetchFails e) (validateKeys e ks)") (auto simp add: find_None_iff)
  then have "first \<in> set (validateKeys e ks)" "fetchFails e first"
    by (auto simp add: find_Some_iff)
  then show ?thesis using f initiate_collect_failure [OF f, where uuid = uuid and w = w] by blast
qed

text \<open>The request \<open>[a.txt, gone.txt]\<close>: both keys pass the head check, the fetch of
  the second one throws \<open>NoSuchKey\<close>.\<close>

theorem collect_failure_fails_job_witness:
  "''gone.txt'' \<in> set (validateKeys storeEnv [''a.txt'', ''gone.txt''])
   \<and> fetchFails storeEnv ''gone.txt''
   \<and> map_option status
        (jobs (snd (initiate storeEnv ''job-1'' [''a.txt'', ''gone.txt''] freshWorld)) ''job-1'')
       = Some Failed
   \<and> map_option error
        (jobs (snd (initiate storeEnv ''job-1'' [''a.txt'', ''gone.txt''] freshWorld)) ''job-1'')
       = Some (Some ''Failed to collect file gone.txt: NoSuchKey'')
   \<and> downloads (snd (initiate storeEnv ''job-1'' [''a.txt'', ''gone.txt''] freshWorld)) ''job-1.zip''
       = None"
proof -
  have v: "validateKeys storeEnv [''a.txt'', ''gone.txt''] = [''a.txt'', ''gone.txt'']"
    by code_simp
  have m: "''gone.txt'' \<in> set (validateKeys storeEnv [''a.txt'', ''gone.txt''])"
    unfolding v by simp
  have b: "fetchFails storeEnv ''gone.txt''" by code_simp
  have f: "find (fetchFails storeEnv) [''a.txt'', ''gone.txt''] = Some ''gone.txt''" by code_simp
  have c: "''Failed to collect file '' @ ''gone.txt'' @ '': ''
             @ errorMessage (fetchCause storeEnv ''gone.txt'')
           = ''Failed to collect file gone.txt: NoSuchKey''"
    by code_simp
  have d: "downloads freshWorld ''job-1.zip'' = None" by (simp add: freshWorld_def)
  from collect_failure_fails_job [OF m b, where uuid = "''job-1''" and w = freshWorld]
  obtain first where
    1: "find (fetchFails storeEnv) (validateKeys storeEnv [''a.txt'', ''gone.txt'']) = Some first"
    and 2: "map_option status
        (jobs (snd (initiate storeEnv ''job-1'' [''a.txt'', ''gone.txt''] freshWorld)) ''job-1'')
       = Some Failed"
    and 3: "map_option error
        (jobs (snd (initiate storeEnv ''job-1'' [''a.txt'', ''gone.txt''] freshWorld)) ''job-1'')
       = Some (Some (''Failed to collect file '' @ first @ '': ''
                      @ errorMessage (fetchCause storeEnv first)))"
    and 4: "downloads (snd (initiate storeEnv ''job-1'' [''a.txt'', ''gone.txt''] freshWorld))
       = downloads freshWorld"
    by blast
  have "first = ''gone.txt''" using 1 unfolding v f by simp
  then have "map_option error
        (jobs (snd (initiate storeEnv ''job-1'' [''a.txt'', ''gone.txt''] freshWorld)) ''job-1'')
       = Some (Some ''Failed to collect file gone.txt: NoSuchKey'')"
    using 3 by (simp only: c)
  then show ?thesis using m b 2 d unfolding 4 by blast
qed

section \<open>The progress values of a successful run\<close>




section \<open>Progress and counters over the life of a job\<close>

text \<open>
  Claim C7. Over the whole history of a job, from its creation by the handler to
  the last assignment of the pipeline or of the handler's \<open>.catch\<close>, progress never
  decreases, \<open>filesCompleted\<close> never decreases and never exceeds \<open>totalFiles\<close>, and
  \<open>totalFiles\<close> keeps its creation value, the number of keys that passed the head
  check.
\<close>

theorem progress_never_decreases:
  "successively progressStep (history w (snd (initiate e uuid ks w)))
   \<and> list_all (\<lambda>job. totalFiles job = int (length (validateKeys e ks))
                   \<and> filesCompleted job \<le> totalFiles job)
        (history w (snd (initiate e uuid ks w)))"
proof (cases "validateKeys e ks = []")
  case True
  then show ?thesis by (simp add: history_initiate_rejected)
next
  case False
  from initiate_life [OF False, where uuid = uuid and w = w] obtain url js where
    h: "history w (snd (initiate e uuid ks w)) = queuedJob e uuid (validateKeys e ks) w # js"
    and s: "successively lifeStep (queuedJob e uuid (validateKeys e ks) w # js)"
    by (elim exE conjE) (rule that)
  have p: "successively progressStep (queuedJob e uuid (validateKeys e ks) w # js)"
    using s by (rule successively_mono) (simp_all add: lifeStep_def)
  have "list_all (\<lambda>job. totalFiles job = int (length (validateKeys e ks))
                   \<and> filesCompleted job \<le> totalFiles job)
          (queuedJob e uuid (validateKeys e ks) w # js)"
    using p by (rule successively_list_all) (simp_all add: queuedJob_def progressStep_def)
  then show ?thesis using p h by simp
qed

text \<open>Scenario A again: the history of the request \<open>[a.txt, b.txt, c.txt]\<close> has nine
  states, with these progress values.\<close>

theorem progress_never_decreases_witness:
  "successively progressStep
     (history freshWorld
        (snd (initiate storeEnv ''job-1'' [''a.txt'', ''b.txt'', ''c.txt''] freshWorld)))
   \<and> map progress
        (history freshWorld
           (snd (initiate storeEnv ''job-1'' [''a.txt'', ''b.txt'', ''c.txt''] freshWorld)))
       = [0, 0, 8, 17, 25, 30, 50, 75, 100]"
proof -
  have v: "validateKeys storeEnv [''a.txt'', ''b.txt'', ''c.txt''] = [''a.txt'', ''b.txt'', ''c.txt'']"
    by code_simp
  have s: "storesSucceed storeEnv ''job-1'' [''a.txt'', ''b.txt'', ''c.txt'']" by code_simp
  have ne: "validateKeys storeEnv [''a.txt'', ''b.txt'', ''c.txt''] \<noteq> []"
    unfolding v by simp
  have c: "map_option status
        (jobs (snd (initiate storeEnv ''job-1'' [''a.txt'', ''b.txt'', ''c.txt''] freshWorld))
           ''job-1'') = Some Completed"
    using storeEnv_never_throws v _ s by (rule initiate_completes) simp
  have l: "length [''a.txt'', ''b.txt'', ''c.txt''] = 3" by simp
  have w: "writtenSequence 3 = [8, 17, 25, 30, 50, 75, 100]" by code_simp
  have "map progress
        (history freshWorld
           (snd (initiate storeEnv ''job-1'' [''a.txt'', ''b.txt'', ''c.txt''] freshWorld)))
       = 0 # 0 # writtenSequence 3"
    using initiate_success_history(1) [OF ne c] unfolding v l .
  then show ?thesis
    using progress_never_decreases
      [of freshWorld storeEnv "''job-1''" "[''a.txt'', ''b.txt'', ''c.txt'']"]
    unfolding w by blast
qed

section \<open>Outcome and terminal states\<close>

text \<open>
  Claim C8. In every state of a job's history, a completed job has its
  \<open>downloadUrl\<close> set and no \<open>error\<close>, a failed job has its \<open>error\<close> set and no
  \<open>downloadUrl\<close>, a queued or processing job has neither; and once the status is
  completed or failed, every later state has the same status.
\<close>

theorem terminal_outcome_kept:
  "list_all outcomeOK (history w (snd (initiate e uuid ks w)))
   \<and> successively terminalKept (history w (snd (initiate e uuid ks w)))"
proof (cases "validateKeys e ks = []")
  case True
  then show ?thesis by (simp add: history_initiate_rejected)
next
  case False
  from initiate_life [OF False, where uuid = uuid and w = w] obtain url js where
    h: "history w (snd (initiate e uuid ks w)) = queuedJob e uuid (validateKeys e ks) w # js"
    and s: "successively lifeStep (queuedJob e uuid (validateKeys e ks) w # js)"
    by (elim exE conjE) (rule that)
  have t: "successively terminalKept (queuedJob e uuid (validateKeys e ks) w # js)"
    using s by (rule successively_mono) (simp_all add: lifeStep_def)
  have "list_all outcomeOK (queuedJob e uuid (validateKeys e ks) w # js)"
    using s by (rule successively_list_all) (simp_all add: queuedJob_def lifeStep_def outcomeOK_def)
  then show ?thesis using t h by simp
qed

text \<open>The request \<open>[a.txt, gone.txt]\<close>: the history ends in the failed state.\<close>

theorem terminal_outcome_kept_witness:
  "list_all outcomeOK
     (history freshWorld (snd (initiate storeEnv ''job-1'' [''a.txt'', ''gone.txt''] freshWorld)))
   \<and> successively terminalKept
     (history freshWorld (snd (initiate storeEnv ''job-1'' [''a.txt'', ''gone.txt''] freshWorld)))
   \<and> map_option status
        (jobs (snd (initiate storeEnv ''job-1'' [''a.txt'', ''gone.txt''] freshWorld)) ''job-1'')
       = Some Failed"
proof -
  have v: "validateKeys storeEnv [''a.txt'', ''gone.txt''] = [''a.txt'', ''gone.txt'']"
    by code_simp
  have f: "find (fetchFails storeEnv) (validateKeys storeEnv [''a.txt'', ''gone.txt''])
             = Some ''gone.txt''"
    unfolding v by code_simp
  show ?thesis
    using terminal_outcome_kept [of freshWorld storeEnv "''job-1''" "[''a.txt'', ''gone.txt'']"]
      initiate_collect_failure(1) [OF f, where uuid = "''job-1''" and w = freshWorld]
    by blast
qed

section \<open>The integrity check\<close>

text \<open>
  Claim C9. \<open>processDownloadJob\<close> on a job of the cache is the collection loop
  followed by \<open>afterCollect\<close> on the files the loop returns. Those files carry the
  checksum of their own bytes, so none of them is a mismatch and the integrity loop
  throws nothing on them. And on any list of files of which one, at any position,
  is a mismatch, the integrity loop throws the integrity error of the first
  mismatching file: the job becomes failed with that message in the one assignment
  made, no checkpoint is written, and the destination bucket is unchanged.
\<close>

theorem integrity_check_cannot_fail:
  assumes "jobs w jid = Some job"
  shows "processDownloadJob e jid keys w =
           (case collectFiles e jid (length keys) 0 keys [] (startProcessing e jid w) of
              (Inl t, w1) \<Rightarrow> (Some t, failJob e jid t w1)
            | (Inr temps, w1) \<Rightarrow> afterCollect e jid keys temps w1)
         \<and> (fst (collectFiles e jid (length keys) 0 keys [] (startProcessing e jid w)) = Inr temps
              \<longrightarrow> list_all (\<lambda>file. calculateChecksum e (data file) = checksum file) temps
                \<and> find (mismatch e) temps = None
                \<and> verifyIntegrity e temps = None)
         \<and> (bad \<in> set temps' \<and> mismatch e bad \<and> jobs w' jid = Some job' \<longrightarrow>
              (\<exists>first. find (mismatch e) temps' = Some first
                 \<and> first \<in> set temps' \<and> mismatch e first
                 \<and> verifyIntegrity e temps'
                     = Some (Error (''Integrity check failed for file '' @ key first))
                 \<and> afterCollect e jid keys temps' w'
                     = (Some (Error (''Integrity check failed for file '' @ key first)),
                        failJob e jid
                          (Error (''Integrity check failed for file '' @ key first)) w')
                 \<and> history w' (snd (afterCollect e jid keys temps' w'))
                     = [job'\<lparr>status := Failed,
                             error := Some (''Integrity check failed for file '' @ key first),
                             updatedAt := now e (dateCalls w')\<rparr>]
                 \<and> downloads (snd (afterCollect e jid keys temps' w')) = downloads w'))"
proof (intro conjI impI)
  show "processDownloadJob e jid keys w =
           (case collectFiles e jid (length keys) 0 keys [] (startProcessing e jid w) of
              (Inl t, w1) \<Rightarrow> (Some t, failJob e jid t w1)
            | (Inr temps, w1) \<Rightarrow> afterCollect e jid keys temps w1)"
    using assms by (rule processDownloadJob_split)
next
  assume c: "fst (collectFiles e jid (length keys) 0 keys [] (startProcessing e jid w)) = Inr temps"
  have t: "temps = map (fetched e) keys" using c by (rule collected_files)
  show "list_all (\<lambda>file. calculateChecksum e (data file) = checksum file) temps"
    unfolding t by (simp add: list_all_iff fetched_def Let_def)
  then show "find (mismatch e) temps = None"
    by (simp add: find_None_iff list_all_iff mismatch_def)
  show "verifyIntegrity e temps = None" unfolding t by (rule verifyIntegrity_fetched)
next
  assume b: "bad \<in> set temps' \<and> mismatch e bad \<and> jobs w' jid = Some job'"
  then obtain first where f: "find (mismatch e) temps' = Some first"
    by (cases "find (mismatch e) temps'") (auto simp add: find_None_iff)
  let ?t = "Error (''Integrity check failed for file '' @ key first)"
  have m: "first \<in> set temps'" "mismatch e first"
    using f by (auto simp add: find_Some_iff)
  have v: "verifyIntegrity e temps' = Some ?t" using f by (simp add: verifyIntegrity_find)
  have a: "afterCollect e jid keys temps' w' = (Some ?t, failJob e jid ?t w')"
    using f by (rule afterCollect_mismatch)
  have h: "history w' (snd (afterCollect e jid keys temps' w'))
             = [job'\<lparr>status := Failed,
                     error := Some (''Integrity check failed for file '' @ key first),
                     updatedAt := now e (dateCalls w')\<rparr>]"
    unfolding a using failJob_history [of w' jid job' e ?t] b by simp
  have d: "downloads (snd (afterCollect e jid keys temps' w')) = downloads w'"
    unfolding a by (simp add: failJob_def Let_def)
  show "\<exists>first. find (mismatch e) temps' = Some first
                 \<and> first \<in> set temps' \<and> mismatch e first
                 \<and> verifyIntegrity e temps'
                     = Some (Error (''Integrity check failed for file '' @ key first))
                 \<and> afterCollect e jid keys temps' w'
                     = (Some (Error (''Integrity check failed for file '' @ key first)),
                        failJob e jid
                          (Error (''Integrity check failed for file '' @ key first)) w')
                 \<and> history w' (snd (afterCollect e jid keys temps' w'))
                     = [job'\<lparr>status := Failed,
                             error := Some (''Integrity check failed for file '' @ key first),
                             updatedAt := now e (dateCalls w')\<rparr>]
                 \<and> downloads (snd (afterCollect e jid keys temps' w')) = downloads w'"
    by (intro exI conjI, rule f, rule m(1), rule m(2), rule v, rule a, rule h, rule d)
qed

text \<open>The files collected for \<open>[a.txt, b.txt]\<close>, and the same list with a foreign
  checksum on its second file.\<close>

theorem integrity_check_cannot_fail_witness:
  "jobs (createJob storeEnv ''job-1'' [''a.txt'', ''b.txt''] freshWorld) ''job-1''
     = Some (queuedJob storeEnv ''job-1'' [''a.txt'', ''b.txt''] freshWorld)
   \<and> fst (collectFiles storeEnv ''job-1'' 2 0 [''a.txt'', ''b.txt''] []
           (startProcessing storeEnv ''job-1''
              (createJob storeEnv ''job-1'' [''a.txt'', ''b.txt''] freshWorld)))
       = Inr [\<lparr>key = ''a.txt'', data = ''alpha'', checksum = ''sha256:alpha''\<rparr>,
              \<lparr>key = ''b.txt'', data = ''beta'', checksum = ''sha256:beta''\<rparr>]
   \<and> verifyIntegrity storeEnv
         [\<lparr>key = ''a.txt'', data = ''alpha'', checksum = ''sha256:alpha''\<rparr>,
          \<lparr>key = ''b.txt'', data = ''beta'', checksum = ''sha256:beta''\<rparr>] = None
   \<and> tampered \<in> set [\<lparr>key = ''a.txt'', data = ''alpha'', checksum = ''sha256:alpha''\<rparr>, tampered]
   \<and> mismatch storeEnv tampered
   \<and> fst (afterCollect storeEnv ''job-1'' [''a.txt'', ''b.txt'']
           [\<lparr>key = ''a.txt'', data = ''alpha'', checksum = ''sha256:alpha''\<rparr>, tampered]
           (createJob storeEnv ''job-1'' [''a.txt'', ''b.txt''] freshWorld))
       = Some (Error ''Integrity check failed for file b.txt'')
   \<and> map status
         (history (createJob storeEnv ''job-1'' [''a.txt'', ''b.txt''] freshWorld)
            (snd (afterCollect storeEnv ''job-1'' [''a.txt'', ''b.txt'']
                    [\<lparr>key = ''a.txt'', data = ''alpha'', checksum = ''sha256:alpha''\<rparr>, tampered]
                    (createJob storeEnv ''job-1'' [''a.txt'', ''b.txt''] freshWorld))))
       = [Failed]
   \<and> downloads
         (snd (afterCollect storeEnv ''job-1'' [''a.txt'', ''b.txt'']
                 [\<lparr>key = ''a.txt'', data = ''alpha'', checksum = ''sha256:alpha''\<rparr>, tampered]
                 (createJob storeEnv ''job-1'' [''a.txt'', ''b.txt''] freshWorld)))
       = downloads (createJob storeEnv ''job-1'' [''a.txt'', ''b.txt''] freshWorld)"
proof -
  let ?ks = "[''a.txt'', ''b.txt'']"
  let ?W = "createJob storeEnv ''job-1'' ?ks freshWorld"
  let ?Q = "queuedJob storeEnv ''job-1'' ?ks freshWorld"
  let ?fa = "\<lparr>key = ''a.txt'', data = ''alpha'', checksum = ''sha256:alpha''\<rparr>"
  let ?fb = "\<lparr>key = ''b.txt'', data = ''beta'', checksum = ''sha256:beta''\<rparr>"
  have j: "jobs ?W ''job-1'' = Some ?Q" by simp
  have l: "length ?ks = 2" by simp
  have c: "fst (collectFiles storeEnv ''job-1'' 2 0 ?ks [] (startProcessing storeEnv ''job-1'' ?W))
             = Inr [?fa, ?fb]"
    by code_simp
  have b: "tampered \<in> set [?fa, tampered]" by simp
  have m: "mismatch storeEnv tampered" by code_simp
  have f: "find (mismatch storeEnv) [?fa, tampered] = Some tampered" by code_simp
  have k: "key tampered = ''b.txt''" by (simp add: tampered_def)
  note inst = integrity_check_cannot_fail
    [where w = ?W and jid = "''job-1''" and job = ?Q and e = storeEnv and keys = ?ks
       and temps = "[?fa, ?fb]" and bad = tampered and temps' = "[?fa, tampered]"
       and w' = ?W and job' = ?Q, OF j, unfolded l]
  have v: "verifyIntegrity storeEnv [?fa, ?fb] = None" using inst c by blast
  from inst b m j obtain first where
    ff: "find (mismatch storeEnv) [?fa, tampered] = Some first"
    and a: "afterCollect storeEnv ''job-1'' ?ks [?fa, tampered] ?W
              = (Some (Error (''Integrity check failed for file '' @ key first)),
                 failJob storeEnv ''job-1''
                   (Error (''Integrity check failed for file '' @ key first)) ?W)"
    and h: "history ?W (snd (afterCollect storeEnv ''job-1'' ?ks [?fa, tampered] ?W))
              = [?Q\<lparr>status := Failed,
                     error := Some (''Integrity check failed for file '' @ key first),
                     updatedAt := now storeEnv (dateCalls ?W)\<rparr>]"
    and d: "downloads (snd (afterCollect storeEnv ''job-1'' ?ks [?fa, tampered] ?W))
              = downloads ?W"
    by blast
  have first: "first = tampered" using ff f by simp
  have 1: "fst (afterCollect storeEnv ''job-1'' ?ks [?fa, tampered] ?W)
             = Some (Error ''Integrity check failed for file b.txt'')"
    unfolding a first k by simp
  have 2: "map status (history ?W (snd (afterCollect storeEnv ''job-1'' ?ks [?fa, tampered] ?W)))
             = [Failed]"
    unfolding h by simp
  show ?thesis using j c v b m 1 2 d by (intro conjI)
qed

section \<open>Validation of the requested keys\<close>

text \<open>
  Claim C10. The handler keeps the requested keys whose head check succeeds, in
  order, and drops the others. When none is left the request is rejected with the
  validation error and nothing changes; otherwise the request is accepted, and the
  job's keys and \<open>totalFiles\<close> are the kept keys and their number, at creation and
  in every later state.
\<close>

theorem initiate_keeps_existing_keys:
  "validateKeys e ks = filter (headObject e) ks
   \<and> (filter (headObject e) ks = [] \<longrightarrow>
        initiate e uuid ks w
          = (BadRequest400 ''Validation Error'' ''No valid file keys found in source bucket'', w))
   \<and> (filter (headObject e) ks \<noteq> [] \<longrightarrow>
        fst (initiate e uuid ks w) = Ok200 uuid Queued (length (filter (headObject e) ks))
        \<and> map_option status (jobs (createJob e uuid (filter (headObject e) ks) w) uuid) = Some Queued
        \<and> map_option fileKeys (jobs (snd (initiate e uuid ks w)) uuid)
            = Some (filter (headObject e) ks)
        \<and> list_all (\<lambda>job. jobId job = uuid \<and> fileKeys job = filter (headObject e) ks
                        \<and> totalFiles job = int (length (filter (headObject e) ks)))
             (history w (snd (initiate e uuid ks w))))"
proof (intro conjI impI)
  show v: "validateKeys e ks = filter (headObject e) ks" by (rule validateKeys_filter)
  show "initiate e uuid ks w
          = (BadRequest400 ''Validation Error'' ''No valid file keys found in source bucket'', w)"
    if "filter (headObject e) ks = []"
    using that by (simp add: initiate_rejects v)
  assume ne: "filter (headObject e) ks \<noteq> []"
  then have ne': "validateKeys e ks \<noteq> []" by (simp add: v)
  show "fst (initiate e uuid ks w) = Ok200 uuid Queued (length (filter (headObject e) ks))"
    using ne' by (simp add: initiate_def Let_def v)
  show "map_option status (jobs (createJob e uuid (filter (headObject e) ks) w) uuid) = Some Queued"
    by (simp add: queuedJob_def)
  from initiate_life [OF ne', where uuid = uuid and w = w] obtain url js where
    h: "history w (snd (initiate e uuid ks w)) = queuedJob e uuid (validateKeys e ks) w # js"
    and s: "successively lifeStep (queuedJob e uuid (validateKeys e ks) w # js)"
    and j: "jobs (snd (initiate e uuid ks w)) uuid
               = Some (last (queuedJob e uuid (validateKeys e ks) w # js))"
    by (elim exE conjE) (rule that)
  have a: "list_all (\<lambda>job. jobId job = uuid \<and> fileKeys job = filter (headObject e) ks
                        \<and> totalFiles job = int (length (filter (headObject e) ks)))
             (queuedJob e uuid (validateKeys e ks) w # js)"
    using s
    by (rule successively_list_all)
       (simp_all add: queuedJob_def v lifeStep_def progressStep_def identityKept_def)
  then show "list_all (\<lambda>job. jobId job = uuid \<and> fileKeys job = filter (headObject e) ks
                        \<and> totalFiles job = int (length (filter (headObject e) ks)))
             (history w (snd (initiate e uuid ks w)))"
    unfolding h .
  have "last (queuedJob e uuid (validateKeys e ks) w # js)
          \<in> set (queuedJob e uuid (validateKeys e ks) w # js)"
    by (rule last_in_set) simp
  then have "fileKeys (last (queuedJob e uuid (validateKeys e ks) w # js)) = filter (headObject e) ks"
    using a unfolding list_all_iff by blast
  then show "map_option fileKeys (jobs (snd (initiate e uuid ks w)) uuid)
            = Some (filter (headObject e) ks)"
    by (simp add: j)
qed

text \<open>A request with one key that does not exist, and a request with no existing key.\<close>

theorem initiate_keeps_existing_keys_witness:
  "filter (headObject storeEnv) [''a.txt'', ''nope.txt'', ''b.txt''] = [''a.txt'', ''b.txt'']
   \<and> fst (initiate storeEnv ''job-1'' [''a.txt'', ''nope.txt'', ''b.txt''] freshWorld)
       = Ok200 ''job-1'' Queued 2
   \<and> map_option fileKeys
        (jobs (snd (initiate storeEnv ''job-1'' [''a.txt'', ''nope.txt'', ''b.txt''] freshWorld))
           ''job-1'')
       = Some [''a.txt'', ''b.txt'']
   \<and> filter (headObject storeEnv) [''nope.txt''] = []
   \<and> initiate storeEnv ''job-2'' [''nope.txt''] freshWorld
       = (BadRequest400 ''Validation Error'' ''No valid file keys found in source bucket'',
          freshWorld)"
proof -
  have f: "filter (headObject storeEnv) [''a.txt'', ''nope.txt'', ''b.txt''] = [''a.txt'', ''b.txt'']"
    by code_simp
  have g: "filter (headObject storeEnv) [''nope.txt''] = []" by code_simp
  have l: "length [''a.txt'', ''b.txt''] = 2" by simp
  show ?thesis
    using initiate_keeps_existing_keys [of storeEnv "[''a.txt'', ''nope.txt'', ''b.txt'']" "''job-1''" freshWorld]
      initiate_keeps_existing_keys [of storeEnv "[''nope.txt'']" "''job-2''" freshWorld]
    unfolding f g l by blast
qed

end
